theory Spec2Isabelle
  imports Complex_Main
begin

section \<open>Python values, errors and events\<close>

text \<open>
  The exceptions the module can raise.  \<open>ConsensSeqSettingsError\<close> and
  \<open>ConsensSeqBuilderError\<close> are the module's own classes; the others are raised by
  the Python operations the module uses (list and dictionary subscripts, unbound local
  names, float division, \<open>math.log10\<close>).
\<close>

datatype error =
    ConsensSeqSettingsError
  | ConsensSeqBuilderError
  | IndexError
  | KeyError
  | NameError
  | ZeroDivisionError
  | ValueError

text \<open>
  The events of the two observable classes, with their argument tuples.
\<close>

datatype event =
    settings_change
  | min_confscore_change int int
  | autotrim_change
  | consensus_algorithm_change
  | consensus_changed int int
  | undo_state_changed bool
  | redo_state_changed bool

text \<open>Python subscript \<open>xs[i]\<close>: a negative index counts from the end.\<close>

definition py_index :: "'a list \<Rightarrow> int \<Rightarrow> error + 'a" where
  "py_index xs i =
     (if 0 \<le> i \<and> i < int (length xs) then Inr (xs ! nat i)
      else if i < 0 \<and> - int (length xs) \<le> i then Inr (xs ! nat (int (length xs) + i))
      else Inl IndexError)"

text \<open>Python slice bound: negative bounds count from the end, then both are clamped.\<close>

definition py_bound :: "'a list \<Rightarrow> int \<Rightarrow> nat" where
  "py_bound xs i =
     (let n = int (length xs)
      in if i < 0 then nat (max 0 (n + i)) else nat (min i n))"

text \<open>Python slices \<open>xs[i:j]\<close> and \<open>xs[i:]\<close>, and the repetition \<open>[c] * n\<close>.\<close>

definition py_slice :: "'a list \<Rightarrow> int \<Rightarrow> int \<Rightarrow> 'a list" where
  "py_slice xs i j = take (py_bound xs j - py_bound xs i) (drop (py_bound xs i) xs)"

definition py_slice_from :: "'a list \<Rightarrow> int \<Rightarrow> 'a list" where
  "py_slice_from xs i = drop (py_bound xs i) xs"

definition py_rep :: "'a \<Rightarrow> int \<Rightarrow> 'a list" where
  "py_rep c n = replicate (nat n) c"

section \<open>ConsensSeqSettings\<close>

record settings =
  min_confscore :: int
  consensus_algorithm :: string
  do_autotrim :: bool
  autotrim_winsize :: int
  autotrim_basecnt :: int
  trim_endgaps :: bool
  notify_all :: bool
  change_made :: bool
  published :: "event list"

text \<open>
  Modelled from the spec: \<open>Observable.notifyObservers\<close> (module \<open>observable\<close>) is
  not part of the source file.  Publishing an event is modelled as appending it to the
  log of the events the object has published, in the order of the calls.
\<close>

definition notifyObservers :: "event \<Rightarrow> event list \<Rightarrow> event list" where
  "notifyObservers ev evs = evs @ [ev]"

definition init_settings :: settings where
  "init_settings =
     \<lparr>min_confscore = 30, consensus_algorithm = ''Bayesian'', do_autotrim = True,
      autotrim_winsize = 10, autotrim_basecnt = 8, trim_endgaps = True,
      notify_all = True, change_made = False, published = []\<rparr>"

text \<open>
  The tail shared by every setter once it has stored a new value and published its
  own event: publish \<open>settings_change\<close>, or record the change for \<open>setAll\<close>.
\<close>

definition notify_or_mark :: "settings \<Rightarrow> settings" where
  "notify_or_mark s =
     (if notify_all s then s\<lparr>published := notifyObservers settings_change (published s)\<rparr>
      else s\<lparr>change_made := True\<rparr>)"

text \<open>
  A setter returns the exception it raised, if any, and the object as it is then.
\<close>

definition setMinConfScore :: "int \<Rightarrow> settings \<Rightarrow> error option \<times> settings" where
  "setMinConfScore newval s =
     (if newval > 61 \<or> newval < 1 then (Some ConsensSeqSettingsError, s)
      else if min_confscore s \<noteq> newval then
        (let oldval = min_confscore s;
             s1 = s\<lparr>min_confscore := newval\<rparr>;
             s2 = s1\<lparr>published := notifyObservers (min_confscore_change (min_confscore s1) oldval) (published s1)\<rparr>
         in (None, notify_or_mark s2))
      else (None, s))"

definition setConsensusAlgorithm :: "string \<Rightarrow> settings \<Rightarrow> error option \<times> settings" where
  "setConsensusAlgorithm newval s =
     (if newval \<notin> {''Bayesian'', ''legacy''} then (Some ConsensSeqSettingsError, s)
      else if consensus_algorithm s \<noteq> newval then
        (let s1 = s\<lparr>consensus_algorithm := newval\<rparr>;
             s2 = s1\<lparr>published := notifyObservers consensus_algorithm_change (published s1)\<rparr>
         in (None, notify_or_mark s2))
      else (None, s))"

definition setDoAutoTrim :: "bool \<Rightarrow> settings \<Rightarrow> error option \<times> settings" where
  "setDoAutoTrim newval s =
     (if do_autotrim s \<noteq> newval then
        (let s1 = s\<lparr>do_autotrim := newval\<rparr>;
             s2 = s1\<lparr>published := notifyObservers autotrim_change (published s1)\<rparr>
         in (None, notify_or_mark s2))
      else (None, s))"

definition setAutoTrimParams :: "int \<Rightarrow> int \<Rightarrow> settings \<Rightarrow> error option \<times> settings" where
  "setAutoTrimParams windowsize basecount s =
     (if basecount > windowsize then (Some ConsensSeqSettingsError, s)
      else if autotrim_winsize s \<noteq> windowsize \<or> autotrim_basecnt s \<noteq> basecount then
        (let s1 = s\<lparr>autotrim_winsize := windowsize, autotrim_basecnt := basecount\<rparr>;
             s2 = s1\<lparr>published := notifyObservers autotrim_change (published s1)\<rparr>
         in (None, notify_or_mark s2))
      else (None, s))"

definition setTrimEndGaps :: "bool \<Rightarrow> settings \<Rightarrow> error option \<times> settings" where
  "setTrimEndGaps newval s =
     (if trim_endgaps s \<noteq> newval then
        (let s1 = s\<lparr>trim_endgaps := newval\<rparr>;
             s2 = s1\<lparr>published := notifyObservers autotrim_change (published s1)\<rparr>
         in (None, notify_or_mark s2))
      else (None, s))"

text \<open>
  Sequencing inside the \<open>try\<close> block: a statement runs only if none before it raised.
\<close>

definition and_then ::
  "error option \<times> settings \<Rightarrow> (settings \<Rightarrow> error option \<times> settings) \<Rightarrow> error option \<times> settings"
where
  "and_then r f = (case r of (None, s) \<Rightarrow> f s | (Some e, s) \<Rightarrow> (Some e, s))"

definition setAll_try ::
  "int \<Rightarrow> string \<Rightarrow> bool \<Rightarrow> int \<times> int \<Rightarrow> bool \<Rightarrow> settings \<Rightarrow> error option \<times> settings"
where
  "setAll_try mc alg dat params teg s =
     and_then (and_then (and_then (and_then
       (setMinConfScore mc s)
       (setConsensusAlgorithm alg))
       (setDoAutoTrim dat))
       (setAutoTrimParams (fst params) (snd params)))
       (setTrimEndGaps teg)"

text \<open>
  \<open>setAll\<close>: the \<open>finally\<close> block runs on both exits of the \<open>try\<close> block, and an
  exception of the block is raised again after it.
\<close>

definition setAll ::
  "int \<Rightarrow> string \<Rightarrow> bool \<Rightarrow> int \<times> int \<Rightarrow> bool \<Rightarrow> settings \<Rightarrow> error option \<times> settings"
where
  "setAll mc alg dat params teg s =
     (let s0 = s\<lparr>notify_all := False, change_made := False\<rparr>;
          (err, s1) = setAll_try mc alg dat params teg s0;
          s2 = s1\<lparr>notify_all := True\<rparr>;
          s3 = (if change_made s2
                then s2\<lparr>published := notifyObservers settings_change (published s2)\<rparr>
                else s2)
      in (err, s3))"

text \<open>The six stored setting values of a settings object.\<close>

definition stored :: "settings \<Rightarrow> int \<times> string \<times> bool \<times> int \<times> int \<times> bool" where
  "stored s =
     (min_confscore s, consensus_algorithm s, do_autotrim s,
      autotrim_winsize s, autotrim_basecnt s, trim_endgaps s)"

section \<open>ConsensSeqBuilder\<close>

text \<open>
  The attributes of a builder that the consensus algorithms read and write.  Python
  numbers (the traces' confidence scores, the scores the algorithms compute with float
  arithmetic, and the threshold) are real numbers here: float arithmetic is idealised
  to exact arithmetic.  The two agree up to rounding for Phred scores between 0 and 61,
  the range of the settings and of the properties below.

  Modelled from the spec: \<open>getBaseCallConf\<close> of the two sequence traces (the
  trace class is not part of the source file) is the field \<open>conf1\<close> respectively
  \<open>conf2\<close>: a confidence score for every native index.
\<close>

record builder =
  seq1aligned :: string
  seq2aligned :: string
  seq1indexed :: "int list"
  seq2indexed :: "int list"
  conf1 :: "int \<Rightarrow> real"
  conf2 :: "int \<Rightarrow> real"
  consensus :: string
  consconf :: "real list"

subsection \<open>Single-sequence consensus\<close>

text \<open>One pass of the loop body of \<open>makeSingleConsensus\<close>: the base and score appended.\<close>

definition single_column :: "'a builder_scheme \<Rightarrow> real \<Rightarrow> nat \<Rightarrow> error + (char \<times> real)" where
  "single_column b min_conf cnt =
     (case py_index (seq1aligned b) (int cnt) of
        Inl e \<Rightarrow> Inl e
      | Inr cbase \<Rightarrow>
          (case py_index (seq1indexed b) (int cnt) of
             Inl e \<Rightarrow> Inl e
           | Inr i \<Rightarrow>
               (let cscore = conf1 b i
                in Inr (if cscore < min_conf then CHR ''N'' else cbase, cscore))))"

fun single_loop ::
  "'a builder_scheme \<Rightarrow> real \<Rightarrow> nat list \<Rightarrow> string \<Rightarrow> real list \<Rightarrow> error + (string \<times> real list)"
where
  "single_loop b min_conf [] cons cconf = Inr (cons, cconf)"
| "single_loop b min_conf (cnt # cnts) cons cconf =
     (case single_column b min_conf cnt of
        Inl e \<Rightarrow> Inl e
      | Inr (cbase, cscore) \<Rightarrow> single_loop b min_conf cnts (cons @ [cbase]) (cconf @ [cscore]))"

definition makeSingleConsensus :: "real \<Rightarrow> 'a builder_scheme \<Rightarrow> error + 'a builder_scheme" where
  "makeSingleConsensus min_conf b =
     (case single_loop b min_conf [0..<length (seq1aligned b)] [] [] of
        Inl e \<Rightarrow> Inl e
      | Inr (cons, cconf) \<Rightarrow> Inr (b\<lparr>consensus := cons, consconf := cconf\<rparr>))"

subsection \<open>Legacy consensus\<close>

text \<open>
  The first two statements of the loop body of \<open>makeLegacyConsensus\<close> for one of the
  sequences: when the aligned character is a base call, the base variable and the score
  are assigned; otherwise the base variable keeps what an earlier pass left in it
  (\<open>None\<close>: still unbound) and the score is the \<open>-1\<close> of the pass's first line.
\<close>

definition legacy_read ::
  "string \<Rightarrow> int list \<Rightarrow> (int \<Rightarrow> real) \<Rightarrow> nat \<Rightarrow> char option \<Rightarrow> error + (char option \<times> real)"
where
  "legacy_read aligned indexed conf cnt cbase =
     (case py_index aligned (int cnt) of
        Inl e \<Rightarrow> Inl e
      | Inr c \<Rightarrow>
          if c \<noteq> CHR ''-'' \<and> c \<noteq> CHR ''N'' then
            (case py_index indexed (int cnt) of
               Inl e \<Rightarrow> Inl e
             | Inr i \<Rightarrow> Inr (Some c, conf i))
          else Inr (cbase, - 1))"

text \<open>
  The decision of the loop body: the values of \<open>cbase\<close> and \<open>cscore\<close> after the
  \<open>if\<close>/\<open>elif\<close>/\<open>else\<close>.  Reading a base variable that is still unbound raises.
\<close>

definition legacy_decide ::
  "real \<Rightarrow> char option \<Rightarrow> real \<Rightarrow> char option \<Rightarrow> real \<Rightarrow> error + (char option \<times> real)"
where
  "legacy_decide min_conf cbase cscore cbase2 cscore2 =
     (if cscore \<ge> min_conf then
        (if cscore2 \<ge> min_conf then
           (case (cbase, cbase2) of
              (Some x, Some y) \<Rightarrow> Inr (if x \<noteq> y then Some CHR ''N'' else Some x, cscore)
            | _ \<Rightarrow> Inl NameError)
         else Inr (cbase, cscore))
      else if cscore2 \<ge> min_conf then
        (case cbase2 of
           Some y \<Rightarrow> Inr (Some y, cscore2)
         | None \<Rightarrow> Inl NameError)
      else Inr (Some CHR ''N'', cscore))"

text \<open>
  One pass of the loop body: the two base variables as the pass leaves them, and the
  base and score appended.
\<close>

definition legacy_column ::
  "'a builder_scheme \<Rightarrow> real \<Rightarrow> nat \<Rightarrow> char option \<Rightarrow> char option \<Rightarrow>
   error + (char option \<times> char option \<times> char \<times> real)"
where
  "legacy_column b min_conf cnt cbase cbase2 =
     (case legacy_read (seq1aligned b) (seq1indexed b) (conf1 b) cnt cbase of
        Inl e \<Rightarrow> Inl e
      | Inr (cbase_a, cscore) \<Rightarrow>
          (case legacy_read (seq2aligned b) (seq2indexed b) (conf2 b) cnt cbase2 of
             Inl e \<Rightarrow> Inl e
           | Inr (cbase2_a, cscore2) \<Rightarrow>
               (case legacy_decide min_conf cbase_a cscore cbase2_a cscore2 of
                  Inl e \<Rightarrow> Inl e
                | Inr (cbase_b, cscore_b) \<Rightarrow>
                    (case cbase_b of
                       None \<Rightarrow> Inl NameError
                     | Some c \<Rightarrow>
                         Inr (cbase_b, cbase2_a, c,
                              if cscore_b > cscore2 then cscore_b else cscore2)))))"

fun legacy_loop ::
  "'a builder_scheme \<Rightarrow> real \<Rightarrow> nat list \<Rightarrow> char option \<Rightarrow> char option \<Rightarrow>
   string \<Rightarrow> real list \<Rightarrow> error + (string \<times> real list)"
where
  "legacy_loop b min_conf [] cbase cbase2 cons cconf = Inr (cons, cconf)"
| "legacy_loop b min_conf (cnt # cnts) cbase cbase2 cons cconf =
     (case legacy_column b min_conf cnt cbase cbase2 of
        Inl e \<Rightarrow> Inl e
      | Inr (cbase', cbase2', c, s) \<Rightarrow>
          legacy_loop b min_conf cnts cbase' cbase2' (cons @ [c]) (cconf @ [s]))"

definition makeLegacyConsensus :: "real \<Rightarrow> 'a builder_scheme \<Rightarrow> error + 'a builder_scheme" where
  "makeLegacyConsensus min_conf b =
     (case legacy_loop b min_conf [0..<length (seq1aligned b)] None None [] [] of
        Inl e \<Rightarrow> Inl e
      | Inr (cons, cconf) \<Rightarrow> Inr (b\<lparr>consensus := cons, consconf := cconf\<rparr>))"

subsection \<open>Bayesian consensus\<close>

text \<open>
  The tuple \<open>('A', 'T', 'G', 'C')\<close>.  A nucleotide probability distribution is a
  dictionary; it is modelled as a function, which is exact here because every key that
  is read is one of these four and \<open>defineBasePrDist\<close> has written all four before.
\<close>

definition bases :: "char list" where
  "bases = [CHR ''A'', CHR ''T'', CHR ''G'', CHR ''C'']"

definition defineBasePrDist :: "char \<Rightarrow> real \<Rightarrow> (char \<Rightarrow> real) \<Rightarrow> (char \<Rightarrow> real)" where
  "defineBasePrDist basecall score distdict =
     (let eprob = 10 powr (score / - 10)
      in fold (\<lambda>base d. if base \<noteq> basecall then d(base := eprob / 3) else d)
           bases (distdict(basecall := 1 - eprob)))"

text \<open>
  The posterior is computed in exact real arithmetic, where it is below 1 for all scores
  that are not negative.  In the doubles of the code it is below 1 for scores up to 61;
  for two concordant calls with much higher scores (from 77 on) it rounds to 1.0, and
  \<open>math.log10\<close> in \<open>getMostProbableBase\<close> then raises \<open>ValueError\<close>, which this
  definition does not show.  Properties of the Bayesian algorithm are therefore stated
  for scores up to 61.
\<close>

definition calcPosteriorBasePrDist ::
  "char \<Rightarrow> real \<Rightarrow> char \<Rightarrow> real \<Rightarrow> (char \<Rightarrow> real) \<Rightarrow> error + (char \<Rightarrow> real)"
where
  "calcPosteriorBasePrDist base1 score1 base2 score2 distdict =
     (let prior = defineBasePrDist base1 score1 (\<lambda>_. 0);
          lik = defineBasePrDist base2 score2 distdict;
          denom = fold (\<lambda>base acc. acc + lik base * prior base) bases 0
      in if denom = 0 then Inl ZeroDivisionError
         else Inr (fold (\<lambda>base d. d(base := (d base * prior base) / denom)) bases lik))"

text \<open>\<open>math.log10\<close> raises \<open>ValueError\<close> unless its argument is positive.\<close>

definition getMostProbableBase :: "(char \<Rightarrow> real) \<Rightarrow> error + (char \<times> real)" where
  "getMostProbableBase nppd =
     (let cbase = fold (\<lambda>base cb. if nppd base > nppd cb then base else cb)
                    [CHR ''T'', CHR ''G'', CHR ''C''] (CHR ''A'')
      in case (if nppd cbase > 0 then
                 (if 1 - nppd cbase \<le> 0 then Inl ValueError
                  else Inr (- 10 * log 10 (1 - nppd cbase)))
               else Inr 0) of
           Inl e \<Rightarrow> Inl e
         | Inr cscore \<Rightarrow> Inr (cbase, cscore + 1 / 1000000))"

text \<open>
  The first statements of the loop body of \<open>makeBayesianConsensus\<close> for one of the
  sequences: the base (\<open>'N'\<close> unless the aligned character is a base call) and the
  score variable, which keeps what an earlier pass left in it (\<open>None\<close>: still
  unbound) unless it is assigned in this pass.
\<close>

definition bayesian_read ::
  "string \<Rightarrow> int list \<Rightarrow> (int \<Rightarrow> real) \<Rightarrow> nat \<Rightarrow> real option \<Rightarrow> error + (char \<times> real option)"
where
  "bayesian_read aligned indexed conf cnt score =
     (case py_index aligned (int cnt) of
        Inl e \<Rightarrow> Inl e
      | Inr c \<Rightarrow>
          if c \<notin> {CHR ''-'', CHR ''N''} then
            (case py_index indexed (int cnt) of
               Inl e \<Rightarrow> Inl e
             | Inr i \<Rightarrow> Inr (c, Some (conf i)))
          else Inr (CHR ''N'', score))"

text \<open>
  The consensus base and score of the pass, before the threshold is applied, and the
  dictionary \<open>nppd\<close> as the pass leaves it.
\<close>

definition bayesian_decide ::
  "char \<Rightarrow> real option \<Rightarrow> char \<Rightarrow> real option \<Rightarrow> (char \<Rightarrow> real) \<Rightarrow>
   error + ((char \<Rightarrow> real) \<times> char \<times> real)"
where
  "bayesian_decide base1 score1 base2 score2 nppd =
     (if base1 \<noteq> CHR ''N'' \<and> base2 \<noteq> CHR ''N'' then
        (case (score1, score2) of
           (Some s1, Some s2) \<Rightarrow>
             (case calcPosteriorBasePrDist base1 s1 base2 s2 nppd of
                Inl e \<Rightarrow> Inl e
              | Inr nppd' \<Rightarrow>
                  (case getMostProbableBase nppd' of
                     Inl e \<Rightarrow> Inl e
                   | Inr (cbase, cscore) \<Rightarrow> Inr (nppd', cbase, cscore)))
         | _ \<Rightarrow> Inl NameError)
      else if base1 \<noteq> CHR ''N'' then
        (case score1 of Some s1 \<Rightarrow> Inr (nppd, base1, s1) | None \<Rightarrow> Inl NameError)
      else if base2 \<noteq> CHR ''N'' then
        (case score2 of Some s2 \<Rightarrow> Inr (nppd, base2, s2) | None \<Rightarrow> Inl NameError)
      else Inr (nppd, CHR ''N'', 1))"

definition bayesian_column ::
  "'a builder_scheme \<Rightarrow> real \<Rightarrow> nat \<Rightarrow> real option \<Rightarrow> real option \<Rightarrow> (char \<Rightarrow> real) \<Rightarrow>
   error + (real option \<times> real option \<times> (char \<Rightarrow> real) \<times> char \<times> real)"
where
  "bayesian_column b min_conf cnt score1 score2 nppd =
     (case bayesian_read (seq1aligned b) (seq1indexed b) (conf1 b) cnt score1 of
        Inl e \<Rightarrow> Inl e
      | Inr (base1, score1') \<Rightarrow>
          (case bayesian_read (seq2aligned b) (seq2indexed b) (conf2 b) cnt score2 of
             Inl e \<Rightarrow> Inl e
           | Inr (base2, score2') \<Rightarrow>
               (case bayesian_decide base1 score1' base2 score2' nppd of
                  Inl e \<Rightarrow> Inl e
                | Inr (nppd', cbase, cscore) \<Rightarrow>
                    Inr (score1', score2', nppd',
                         if cscore \<ge> min_conf then cbase else CHR ''N'', cscore))))"

fun bayesian_loop ::
  "'a builder_scheme \<Rightarrow> real \<Rightarrow> nat list \<Rightarrow> real option \<Rightarrow> real option \<Rightarrow> (char \<Rightarrow> real) \<Rightarrow>
   string \<Rightarrow> real list \<Rightarrow> error + (string \<times> real list)"
where
  "bayesian_loop b min_conf [] score1 score2 nppd cons cconf = Inr (cons, cconf)"
| "bayesian_loop b min_conf (cnt # cnts) score1 score2 nppd cons cconf =
     (case bayesian_column b min_conf cnt score1 score2 nppd of
        Inl e \<Rightarrow> Inl e
      | Inr (score1', score2', nppd', c, s) \<Rightarrow>
          bayesian_loop b min_conf cnts score1' score2' nppd' (cons @ [c]) (cconf @ [s]))"

definition makeBayesianConsensus :: "real \<Rightarrow> 'a builder_scheme \<Rightarrow> error + 'a builder_scheme" where
  "makeBayesianConsensus min_conf b =
     (case bayesian_loop b min_conf [0..<length (seq1aligned b)] None None (\<lambda>_. 0) [] [] of
        Inl e \<Rightarrow> Inl e
      | Inr (cons, cconf) \<Rightarrow> Inr (b\<lparr>consensus := cons, consconf := cconf\<rparr>))"

subsection \<open>Quality trimming\<close>

definition base_to_int :: "char \<rightharpoonup> int" where
  "base_to_int =
     [CHR ''A'' \<mapsto> 1, CHR ''C'' \<mapsto> 1, CHR ''G'' \<mapsto> 1, CHR ''T'' \<mapsto> 1,
      CHR ''N'' \<mapsto> 0, CHR '' '' \<mapsto> 0]"

text \<open>The list comprehension \<open>[base_to_int[base] for base in self.consensus]\<close>.\<close>

fun consvals_of :: "string \<Rightarrow> error + int list" where
  "consvals_of [] = Inr []"
| "consvals_of (base # rest) =
     (case base_to_int base of
        None \<Rightarrow> Inl KeyError
      | Some v \<Rightarrow> (case consvals_of rest of Inl e \<Rightarrow> Inl e | Inr vs \<Rightarrow> Inr (v # vs)))"

text \<open>
  The two \<open>while\<close> loops of \<open>trimConsensus\<close>; each returns \<open>index\<close> and
  \<open>num_good\<close> as the loop leaves them.  The bound of the first loop is the length of
  the consensus string, which is the length of \<open>consvals\<close>.
\<close>

function trim_left :: "int list \<Rightarrow> int \<Rightarrow> int \<Rightarrow> int \<Rightarrow> int \<Rightarrow> error + (int \<times> int)" where
  "trim_left consvals winsize basecnt index num_good =
     (if num_good < basecnt \<and> index + winsize < int (length consvals) then
        (case py_index consvals (index + winsize) of
           Inl e \<Rightarrow> Inl e
         | Inr v_in \<Rightarrow>
             (case py_index consvals index of
                Inl e \<Rightarrow> Inl e
              | Inr v_out \<Rightarrow>
                  trim_left consvals winsize basecnt (index + 1) (num_good + v_in - v_out)))
      else Inr (index, num_good))"
  by pat_completeness auto
termination
  by (relation "measure (\<lambda>(consvals, winsize, basecnt, index, num_good).
        nat (int (length consvals) - (index + winsize)))") auto

function trim_right ::
  "int list \<Rightarrow> int \<Rightarrow> int \<Rightarrow> int \<Rightarrow> int \<Rightarrow> int \<Rightarrow> error + (int \<times> int)"
where
  "trim_right consvals winsize basecnt index_left index num_good =
     (if num_good < basecnt \<and> index - winsize \<ge> index_left then
        (case py_index consvals (index - winsize) of
           Inl e \<Rightarrow> Inl e
         | Inr v_in \<Rightarrow>
             (case py_index consvals index of
                Inl e \<Rightarrow> Inl e
              | Inr v_out \<Rightarrow>
                  trim_right consvals winsize basecnt index_left (index - 1)
                    (num_good + v_in - v_out)))
      else Inr (index, num_good))"
  by pat_completeness auto
termination
  by (relation "measure (\<lambda>(consvals, winsize, basecnt, index_left, index, num_good).
        nat (index - winsize - index_left + 1))") auto

definition trimConsensus :: "int \<Rightarrow> int \<Rightarrow> 'a builder_scheme \<Rightarrow> error + 'a builder_scheme" where
  "trimConsensus winsize basecnt b =
     (let n = int (length (consensus b))
      in if n < winsize then Inr b
         else
           (case consvals_of (consensus b) of
              Inl e \<Rightarrow> Inl e
            | Inr consvals \<Rightarrow>
                (case trim_left consvals winsize basecnt 0
                        (sum_list (py_slice consvals 0 winsize)) of
                   Inl e \<Rightarrow> Inl e
                 | Inr (index_left, _) \<Rightarrow>
                     (case trim_right consvals winsize basecnt index_left (n - 1)
                             (sum_list (py_slice consvals (int (length consvals) - winsize)
                                (int (length consvals)))) of
                        Inl e \<Rightarrow> Inl e
                      | Inr (index_right, num_good) \<Rightarrow>
                          Inr (b\<lparr>consensus :=
                                 (if num_good < basecnt then py_rep (CHR '' '') n
                                  else py_rep (CHR '' '') index_left
                                       @ py_slice (consensus b) index_left (index_right + 1)
                                       @ py_rep (CHR '' '') (n - index_right - 1))\<rparr>)))))"

section \<open>ModifiableConsensSeqBuilder\<close>

text \<open>An entry of the undo or redo stack: the dictionary with keys start, end and data.\<close>

record edit =
  edit_start :: int
  edit_end :: int
  edit_data :: string

text \<open>
  The stacks are Python lists: \<open>append\<close> adds at the end and \<open>pop\<close> removes the
  last element.  \<open>notified\<close> is the log of the events the builder has published.
\<close>

record modbuilder = builder +
  undo_stack :: "edit list"
  redo_stack :: "edit list"
  notified :: "event list"

text \<open>The swap of the start and end points at the head of both editing methods.\<close>

definition swap_points :: "int \<Rightarrow> int \<Rightarrow> int \<times> int" where
  "swap_points start_index end_index =
     (if start_index > end_index then (end_index, start_index) else (start_index, end_index))"

text \<open>The last three statements shared by \<open>deleteBases\<close> and \<open>modifyBases\<close>.\<close>

definition notify_edit :: "int \<Rightarrow> int \<Rightarrow> 'a modbuilder_scheme \<Rightarrow> 'a modbuilder_scheme" where
  "notify_edit start_index end_index b =
     (let b1 = b\<lparr>notified := notifyObservers (consensus_changed start_index end_index) (notified b)\<rparr>
      in if length (undo_stack b1) = 1
         then b1\<lparr>notified := notifyObservers (undo_state_changed True) (notified b1)\<rparr>
         else b1)"

definition deleteBases :: "int \<Rightarrow> int \<Rightarrow> 'a modbuilder_scheme \<Rightarrow> 'a modbuilder_scheme" where
  "deleteBases start_index end_index b =
     (let (s, e) = swap_points start_index end_index;
          b1 = b\<lparr>undo_stack := undo_stack b @
                  [\<lparr>edit_start = s, edit_end = e, edit_data = py_slice (consensus b) s (e + 1)\<rparr>]\<rparr>;
          b2 = b1\<lparr>consensus := py_slice (consensus b1) 0 s @ py_rep (CHR '' '') (e - s + 1)
                    @ py_slice_from (consensus b1) (e + 1)\<rparr>
      in notify_edit s e b2)"

definition modifyBases ::
  "int \<Rightarrow> int \<Rightarrow> string \<Rightarrow> 'a modbuilder_scheme \<Rightarrow> error + 'a modbuilder_scheme"
where
  "modifyBases start_index end_index newseq b =
     (let (s, e) = swap_points start_index end_index
      in if int (length newseq) \<noteq> e - s + 1 then Inl ConsensSeqBuilderError
         else
           (let b1 = b\<lparr>undo_stack := undo_stack b @
                       [\<lparr>edit_start = s, edit_end = e,
                         edit_data = py_slice (consensus b) s (e + 1)\<rparr>]\<rparr>;
                b2 = b1\<lparr>consensus := py_slice (consensus b1) 0 s @ newseq
                          @ py_slice_from (consensus b1) (e + 1)\<rparr>
            in Inr (notify_edit s e b2)))"

definition undo :: "'a modbuilder_scheme \<Rightarrow> 'a modbuilder_scheme" where
  "undo b =
     (if length (undo_stack b) > 0 then
        (let u = last (undo_stack b);
             b1 = b\<lparr>undo_stack := butlast (undo_stack b)\<rparr>;
             s = edit_start u;
             e = edit_end u;
             b2 = b1\<lparr>redo_stack := redo_stack b1 @
                      [\<lparr>edit_start = s, edit_end = e,
                        edit_data = py_slice (consensus b1) s (e + 1)\<rparr>]\<rparr>;
             b3 = b2\<lparr>consensus := py_slice (consensus b2) 0 s @ edit_data u
                       @ py_slice_from (consensus b2) (e + 1)\<rparr>;
             b4 = b3\<lparr>notified := notifyObservers (consensus_changed s e) (notified b3)\<rparr>;
             b5 = (if length (redo_stack b4) = 1
                   then b4\<lparr>notified := notifyObservers (redo_state_changed True) (notified b4)\<rparr>
                   else b4)
         in if length (undo_stack b5) = 0
            then b5\<lparr>notified := notifyObservers (undo_state_changed False) (notified b5)\<rparr>
            else b5)
      else b)"

definition redo :: "'a modbuilder_scheme \<Rightarrow> 'a modbuilder_scheme" where
  "redo b =
     (if length (redo_stack b) > 0 then
        (let r = last (redo_stack b);
             b1 = b\<lparr>redo_stack := butlast (redo_stack b)\<rparr>;
             s = edit_start r;
             e = edit_end r;
             b2 = b1\<lparr>undo_stack := undo_stack b1 @
                      [\<lparr>edit_start = s, edit_end = e,
                        edit_data = py_slice (consensus b1) s (e + 1)\<rparr>]\<rparr>;
             b3 = b2\<lparr>consensus := py_slice (consensus b2) 0 s @ edit_data r
                       @ py_slice_from (consensus b2) (e + 1)\<rparr>;
             b4 = b3\<lparr>notified := notifyObservers (consensus_changed s e) (notified b3)\<rparr>;
             b5 = (if length (undo_stack b4) = 1
                   then b4\<lparr>notified := notifyObservers (undo_state_changed True) (notified b4)\<rparr>
                   else b4)
         in if length (redo_stack b5) = 0
            then b5\<lparr>notified := notifyObservers (redo_state_changed False) (notified b5)\<rparr>
            else b5)
      else b)"

section \<open>The two-sequence algorithms in the words of the specification\<close>

subsection \<open>The legacy algorithm\<close>

text \<open>
  The score a sequence contributes at a column: the sentinel \<open>-1\<close> when its aligned
  character is a gap or \<open>'N'\<close>, and its trace's confidence otherwise.
\<close>

definition spec_legacy_score :: "string \<Rightarrow> int list \<Rightarrow> (int \<Rightarrow> real) \<Rightarrow> nat \<Rightarrow> real" where
  "spec_legacy_score aligned indexed conf cnt =
     (if aligned ! cnt = CHR ''-'' \<or> aligned ! cnt = CHR ''N'' then - 1
      else conf (indexed ! cnt))"

text \<open>
  The consensus base from the two aligned characters and the two contributed scores:
  both clear the threshold and differ, both clear and agree, only one clears, neither.
\<close>

definition spec_legacy_base :: "real \<Rightarrow> char \<Rightarrow> real \<Rightarrow> char \<Rightarrow> real \<Rightarrow> char" where
  "spec_legacy_base min_conf c1 s1 c2 s2 =
     (if min_conf \<le> s1 \<and> min_conf \<le> s2 then (if c1 \<noteq> c2 then CHR ''N'' else c1)
      else if min_conf \<le> s1 then c1
      else if min_conf \<le> s2 then c2
      else CHR ''N'')"

subsection \<open>The Bayesian algorithm\<close>

text \<open>
  A base call \<open>b\<close> with Phred score \<open>s\<close> has error probability \<open>10^(s / -10)\<close>; its
  distribution gives \<open>1 - e\<close> to \<open>b\<close> and \<open>e / 3\<close> to each other base.
\<close>

definition spec_error_prob :: "real \<Rightarrow> real" where
  "spec_error_prob s = 10 powr (s / - 10)"

definition spec_call_dist :: "char \<Rightarrow> real \<Rightarrow> char \<Rightarrow> real" where
  "spec_call_dist b s x = (if x = b then 1 - spec_error_prob s else spec_error_prob s / 3)"

text \<open>
  Bayes' theorem with the first call as the prior and the second as the likelihood,
  over the four bases.
\<close>

definition spec_posterior :: "char \<Rightarrow> real \<Rightarrow> char \<Rightarrow> real \<Rightarrow> char \<Rightarrow> real" where
  "spec_posterior c1 s1 c2 s2 x =
     (spec_call_dist c2 s2 x * spec_call_dist c1 s1 x) /
     (\<Sum>y\<leftarrow>bases. spec_call_dist c2 s2 y * spec_call_dist c1 s1 y)"

text \<open>The first base, in the order A, T, G, C, whose probability no other base exceeds.\<close>

definition spec_most_probable :: "(char \<Rightarrow> real) \<Rightarrow> char" where
  "spec_most_probable p = hd (filter (\<lambda>x. \<forall>y\<in>set bases. p y \<le> p x) bases)"

text \<open>The Phred-type score of a probability, with the small quantity added.\<close>

definition spec_phred :: "real \<Rightarrow> real" where
  "spec_phred p = (if p = 0 then 0 else - 10 * log 10 (1 - p)) + 1 / 1000000"

text \<open>A sequence is usable at a column when its aligned character is no gap and no \<open>'N'\<close>.\<close>

definition spec_usable :: "char \<Rightarrow> bool" where
  "spec_usable c \<longleftrightarrow> c \<noteq> CHR ''-'' \<and> c \<noteq> CHR ''N''"

text \<open>The consensus base and score of a column before the threshold is applied.\<close>

definition spec_bayes_call :: "char \<Rightarrow> real \<Rightarrow> char \<Rightarrow> real \<Rightarrow> char \<times> real" where
  "spec_bayes_call c1 s1 c2 s2 =
     (if spec_usable c1 \<and> spec_usable c2 then
        (spec_most_probable (spec_posterior c1 s1 c2 s2),
         spec_phred (spec_posterior c1 s1 c2 s2
           (spec_most_probable (spec_posterior c1 s1 c2 s2))))
      else if spec_usable c1 then (c1, s1)
      else if spec_usable c2 then (c2, s2)
      else (CHR ''N'', 1))"

section \<open>Example inputs\<close>

text \<open>A builder of two traces that agree, as an example input.\<close>

definition example_builder :: "unit modbuilder_scheme" where
  "example_builder =
     \<lparr>seq1aligned = ''ACGTAC'', seq2aligned = ''ACGTAC'',
      seq1indexed = [0, 1, 2, 3, 4, 5], seq2indexed = [0, 1, 2, 3, 4, 5],
      conf1 = (\<lambda>i. 40), conf2 = (\<lambda>i. 40),
      consensus = ''ACGTAC'', consconf = [40, 40, 40, 40, 40, 40],
      undo_stack = [], redo_stack = [], notified = []\<rparr>"

text \<open>A single trace whose second base call is \<open>'N'\<close>, with a high score throughout.\<close>

definition single_example :: builder where
  "single_example =
     \<lparr>seq1aligned = ''AN'', seq2aligned = [], seq1indexed = [0, 1], seq2indexed = [],
      conf1 = (\<lambda>i. 40), conf2 = (\<lambda>i. 0), consensus = [], consconf = []\<rparr>"

text \<open>Two aligned traces that disagree in one column and have a gap each.\<close>

definition pair_example :: builder where
  "pair_example =
     \<lparr>seq1aligned = ''ACGT-'', seq2aligned = ''-CTTA'',
      seq1indexed = [0, 1, 2, 3, - 1], seq2indexed = [- 1, 0, 1, 2, 3],
      conf1 = (\<lambda>i. if i = 3 then 10 else 40), conf2 = (\<lambda>i. 35),
      consensus = [], consconf = []\<rparr>"

text \<open>The consensus string of the trimming example, and a string of \<open>'N'\<close> only.\<close>

definition trim_example :: builder where
  "trim_example =
     \<lparr>seq1aligned = ''NNNACGTNNN'', seq2aligned = [],
      seq1indexed = [0, 1, 2, 3, 4, 5, 6, 7, 8, 9], seq2indexed = [],
      conf1 = (\<lambda>i. 40), conf2 = (\<lambda>i. 0),
      consensus = ''NNNACGTNNN'', consconf = [10, 10, 10, 40, 40, 40, 40, 10, 10, 10]\<rparr>"

definition allN_example :: builder where
  "allN_example =
     \<lparr>seq1aligned = ''NN'', seq2aligned = [], seq1indexed = [0, 1], seq2indexed = [],
      conf1 = (\<lambda>i. 5), conf2 = (\<lambda>i. 0), consensus = ''NN'', consconf = [5, 5]\<rparr>"

section \<open>The invariant of a batch of setters\<close>

text \<open>
  The invariant of the \<open>try\<close> block of \<open>setAll\<close>, relative to the object \<open>s0\<close> the
  block starts from: notification stays suppressed, no \<open>settings_change\<close> has been
  published, and \<open>change_made\<close> tells whether a stored value differs from \<open>s0\<close>.
\<close>

definition batch_inv :: "settings \<Rightarrow> settings \<Rightarrow> bool" where
  "batch_inv s0 s \<longleftrightarrow>
     \<not> notify_all s \<and>
     (\<exists>evs. published s = published s0 @ evs \<and> settings_change \<notin> set evs) \<and>
     (change_made s \<longleftrightarrow> stored s \<noteq> stored s0)"

section \<open>Properties of the settings\<close>

lemma and_then_fst: "fst (and_then r f) = (if fst r = None then fst (f (snd r)) else fst r)"
  by (cases r) (simp add: and_then_def split: option.splits)

lemma and_then_snd: "snd (and_then r f) = (if fst r = None then snd (f (snd r)) else snd r)"
  by (cases r) (simp add: and_then_def split: option.splits)

lemma setMinConfScore_fst:
  "fst (setMinConfScore mc s) = (if mc > 61 \<or> mc < 1 then Some ConsensSeqSettingsError else None)"
  by (simp add: setMinConfScore_def Let_def)

lemma setConsensusAlgorithm_fst:
  "fst (setConsensusAlgorithm alg s) =
     (if alg \<notin> {''Bayesian'', ''legacy''} then Some ConsensSeqSettingsError else None)"
  by (simp add: setConsensusAlgorithm_def Let_def)

lemma setDoAutoTrim_fst: "fst (setDoAutoTrim dat s) = None"
  by (simp add: setDoAutoTrim_def Let_def)

lemma setAutoTrimParams_fst:
  "fst (setAutoTrimParams w b s) = (if b > w then Some ConsensSeqSettingsError else None)"
  by (simp add: setAutoTrimParams_def Let_def)

lemma setTrimEndGaps_fst: "fst (setTrimEndGaps teg s) = None"
  by (simp add: setTrimEndGaps_def Let_def)

text \<open>Each setter keeps the invariant, provided its own field has not been set before.\<close>

lemma setMinConfScore_batch:
  assumes "batch_inv s0 s" and "min_confscore s = min_confscore s0"
  shows "batch_inv s0 (snd (setMinConfScore mc s))"
  using assms
  by (auto simp: batch_inv_def setMinConfScore_def notify_or_mark_def notifyObservers_def
      stored_def Let_def)

lemma setMinConfScore_frame:
  "consensus_algorithm (snd (setMinConfScore mc s)) = consensus_algorithm s \<and>
   do_autotrim (snd (setMinConfScore mc s)) = do_autotrim s \<and>
   autotrim_winsize (snd (setMinConfScore mc s)) = autotrim_winsize s \<and>
   autotrim_basecnt (snd (setMinConfScore mc s)) = autotrim_basecnt s \<and>
   trim_endgaps (snd (setMinConfScore mc s)) = trim_endgaps s"
  by (simp add: setMinConfScore_def notify_or_mark_def Let_def)

lemma setConsensusAlgorithm_batch:
  assumes "batch_inv s0 s" and "consensus_algorithm s = consensus_algorithm s0"
  shows "batch_inv s0 (snd (setConsensusAlgorithm alg s))"
  using assms
  by (auto simp: batch_inv_def setConsensusAlgorithm_def notify_or_mark_def notifyObservers_def
      stored_def Let_def)

lemma setConsensusAlgorithm_frame:
  "do_autotrim (snd (setConsensusAlgorithm alg s)) = do_autotrim s \<and>
   autotrim_winsize (snd (setConsensusAlgorithm alg s)) = autotrim_winsize s \<and>
   autotrim_basecnt (snd (setConsensusAlgorithm alg s)) = autotrim_basecnt s \<and>
   trim_endgaps (snd (setConsensusAlgorithm alg s)) = trim_endgaps s"
  by (simp add: setConsensusAlgorithm_def notify_or_mark_def Let_def)

lemma setDoAutoTrim_batch:
  assumes "batch_inv s0 s" and "do_autotrim s = do_autotrim s0"
  shows "batch_inv s0 (snd (setDoAutoTrim dat s))"
  using assms
  by (auto simp: batch_inv_def setDoAutoTrim_def notify_or_mark_def notifyObservers_def
      stored_def Let_def)

lemma setDoAutoTrim_frame:
  "autotrim_winsize (snd (setDoAutoTrim dat s)) = autotrim_winsize s \<and>
   autotrim_basecnt (snd (setDoAutoTrim dat s)) = autotrim_basecnt s \<and>
   trim_endgaps (snd (setDoAutoTrim dat s)) = trim_endgaps s"
  by (simp add: setDoAutoTrim_def notify_or_mark_def Let_def)

lemma setAutoTrimParams_batch:
  assumes "batch_inv s0 s" and "autotrim_winsize s = autotrim_winsize s0"
    and "autotrim_basecnt s = autotrim_basecnt s0"
  shows "batch_inv s0 (snd (setAutoTrimParams w b s))"
  using assms
  by (auto simp: batch_inv_def setAutoTrimParams_def notify_or_mark_def notifyObservers_def
      stored_def Let_def)

lemma setAutoTrimParams_frame:
  "trim_endgaps (snd (setAutoTrimParams w b s)) = trim_endgaps s"
  by (simp add: setAutoTrimParams_def notify_or_mark_def Let_def)

lemma setTrimEndGaps_batch:
  assumes "batch_inv s0 s" and "trim_endgaps s = trim_endgaps s0"
  shows "batch_inv s0 (snd (setTrimEndGaps teg s))"
  using assms
  by (auto simp: batch_inv_def setTrimEndGaps_def notify_or_mark_def notifyObservers_def
      stored_def Let_def)

lemma setAll_try_fst:
  "fst (setAll_try mc alg dat (w, b) teg s) =
     (if mc > 61 \<or> mc < 1 \<or> alg \<notin> {''Bayesian'', ''legacy''} \<or> b > w
      then Some ConsensSeqSettingsError else None)"
  by (simp add: setAll_try_def and_then_fst setMinConfScore_fst setConsensusAlgorithm_fst
      setDoAutoTrim_fst setAutoTrimParams_fst setTrimEndGaps_fst)

lemma setAll_try_batch:
  assumes "batch_inv s0 s0"
  shows "batch_inv s0 (snd (setAll_try mc alg dat (w, b) teg s0))"
proof -
  define s1 where "s1 = snd (setMinConfScore mc s0)"
  define s2 where "s2 = snd (setConsensusAlgorithm alg s1)"
  define s3 where "s3 = snd (setDoAutoTrim dat s2)"
  define s4 where "s4 = snd (setAutoTrimParams w b s3)"
  define s5 where "s5 = snd (setTrimEndGaps teg s4)"
  have i1: "batch_inv s0 s1"
    unfolding s1_def using assms by (rule setMinConfScore_batch) simp
  have f1: "consensus_algorithm s1 = consensus_algorithm s0" "do_autotrim s1 = do_autotrim s0"
    "autotrim_winsize s1 = autotrim_winsize s0" "autotrim_basecnt s1 = autotrim_basecnt s0"
    "trim_endgaps s1 = trim_endgaps s0"
    unfolding s1_def using setMinConfScore_frame [of mc s0] by simp_all
  have i2: "batch_inv s0 s2"
    unfolding s2_def using i1 f1(1) by (rule setConsensusAlgorithm_batch)
  have f2: "do_autotrim s2 = do_autotrim s0"
    "autotrim_winsize s2 = autotrim_winsize s0" "autotrim_basecnt s2 = autotrim_basecnt s0"
    "trim_endgaps s2 = trim_endgaps s0"
    unfolding s2_def using setConsensusAlgorithm_frame [of alg s1] f1 by simp_all
  have i3: "batch_inv s0 s3"
    unfolding s3_def using i2 f2(1) by (rule setDoAutoTrim_batch)
  have f3: "autotrim_winsize s3 = autotrim_winsize s0" "autotrim_basecnt s3 = autotrim_basecnt s0"
    "trim_endgaps s3 = trim_endgaps s0"
    unfolding s3_def using setDoAutoTrim_frame [of dat s2] f2 by simp_all
  have i4: "batch_inv s0 s4"
    unfolding s4_def using i3 f3(1) f3(2) by (rule setAutoTrimParams_batch)
  have f4: "trim_endgaps s4 = trim_endgaps s0"
    unfolding s4_def using setAutoTrimParams_frame [of w b s3] f3 by simp
  have i5: "batch_inv s0 s5"
    unfolding s5_def using i4 f4 by (rule setTrimEndGaps_batch)
  have "snd (setAll_try mc alg dat (w, b) teg s0) \<in> {s1, s2, s3, s4, s5}"
    by (simp add: setAll_try_def and_then_snd and_then_fst s1_def s2_def s3_def s4_def s5_def)
  with i1 i2 i3 i4 i5 show ?thesis by auto
qed

lemma batch_inv_start:
  "batch_inv (s\<lparr>notify_all := False, change_made := False\<rparr>)
     (s\<lparr>notify_all := False, change_made := False\<rparr>)"
  by (simp add: batch_inv_def)

text \<open>
  C6.  Whatever the arguments, \<open>setAll\<close> raises exactly when one of the three
  validating setters rejects its argument, and on both exits the object is back in
  normal notification mode.  The events it has published are the setters' own events,
  none of them \<open>settings_change\<close>, followed by exactly one \<open>settings_change\<close> if a
  stored value differs from before the call, and by nothing otherwise.
\<close>

theorem setAll_notification:
  "fst (setAll mc alg dat (w, b) teg s) =
     (if mc > 61 \<or> mc < 1 \<or> alg \<notin> {''Bayesian'', ''legacy''} \<or> b > w
      then Some ConsensSeqSettingsError else None) \<and>
   notify_all (snd (setAll mc alg dat (w, b) teg s)) \<and>
   (\<exists>evs. settings_change \<notin> set evs \<and>
      published (snd (setAll mc alg dat (w, b) teg s)) =
        published s @ evs @
        (if stored (snd (setAll mc alg dat (w, b) teg s)) \<noteq> stored s
         then [settings_change] else []))"
proof -
  define s0 where "s0 = s\<lparr>notify_all := False, change_made := False\<rparr>"
  define s1 where "s1 = snd (setAll_try mc alg dat (w, b) teg s0)"
  have inv: "batch_inv s0 s1"
    unfolding s1_def s0_def by (rule setAll_try_batch) (rule batch_inv_start)
  have res: "setAll mc alg dat (w, b) teg s =
      (fst (setAll_try mc alg dat (w, b) teg s0),
       if change_made s1
       then s1\<lparr>notify_all := True, published := notifyObservers settings_change (published s1)\<rparr>
       else s1\<lparr>notify_all := True\<rparr>)"
    by (simp add: setAll_def s0_def s1_def Let_def split: prod.splits)
  from inv obtain evs where evs: "published s1 = published s0 @ evs" "settings_change \<notin> set evs"
    and cm: "change_made s1 \<longleftrightarrow> stored s1 \<noteq> stored s0"
    by (auto simp: batch_inv_def)
  have st0: "stored s0 = stored s" "published s0 = published s"
    by (simp_all add: s0_def stored_def)
  show ?thesis
    using evs cm st0
    by (auto simp: res setAll_try_fst notifyObservers_def stored_def)
qed

text \<open>
  A batch whose second setter raises after the first one has changed the threshold:
  the exception leaves \<open>setAll\<close>, normal notification mode is restored, and the one
  \<open>settings_change\<close> follows the threshold's own event.
\<close>

theorem setAll_notification_witness:
  "fst (setAll 20 ''nonsense'' False (10, 8) True init_settings) = Some ConsensSeqSettingsError \<and>
   notify_all (snd (setAll 20 ''nonsense'' False (10, 8) True init_settings)) \<and>
   min_confscore (snd (setAll 20 ''nonsense'' False (10, 8) True init_settings)) = 20 \<and>
   published (snd (setAll 20 ''nonsense'' False (10, 8) True init_settings)) =
     [min_confscore_change 20 30, settings_change]"
  using setAll_notification [of 20 "''nonsense''" False 10 8 True init_settings]
  by (simp add: setAll_def setAll_try_def and_then_def setMinConfScore_def
      setConsensusAlgorithm_def notify_or_mark_def notifyObservers_def init_settings_def Let_def)

text \<open>
  C9.  \<open>setConsensusAlgorithm\<close> raises the settings error exactly when its argument
  is neither of the two algorithm names, which the code spells \<open>'Bayesian'\<close> and
  \<open>'legacy'\<close>; it raises nothing else, and when it raises the object is unchanged.
\<close>

theorem setConsensusAlgorithm_validation:
  "(fst (setConsensusAlgorithm v s) = Some ConsensSeqSettingsError
      \<longleftrightarrow> v \<notin> {''Bayesian'', ''legacy''}) \<and>
   (fst (setConsensusAlgorithm v s) = None \<longleftrightarrow> v \<in> {''Bayesian'', ''legacy''}) \<and>
   (v \<notin> {''Bayesian'', ''legacy''} \<longrightarrow> snd (setConsensusAlgorithm v s) = s) \<and>
   (v \<in> {''Bayesian'', ''legacy''} \<longrightarrow>
      consensus_algorithm (snd (setConsensusAlgorithm v s)) = v)"
  by (simp add: setConsensusAlgorithm_def notify_or_mark_def Let_def)

theorem setConsensusAlgorithm_validation_witness:
  "fst (setConsensusAlgorithm ''consensus'' init_settings) = Some ConsensSeqSettingsError \<and>
   snd (setConsensusAlgorithm ''consensus'' init_settings) = init_settings \<and>
   fst (setConsensusAlgorithm ''legacy'' init_settings) = None \<and>
   consensus_algorithm (snd (setConsensusAlgorithm ''legacy'' init_settings)) = ''legacy''"
  using setConsensusAlgorithm_validation [of "''consensus''" init_settings]
    setConsensusAlgorithm_validation [of "''legacy''" init_settings]
  by simp

section \<open>Properties of the editing operations\<close>

lemma py_bound_nonneg: "0 \<le> i \<Longrightarrow> py_bound xs i = min (nat i) (length xs)"
  by (simp add: py_bound_def Let_def)

lemma py_slice_nat:
  "0 \<le> i \<Longrightarrow> i \<le> j \<Longrightarrow> j \<le> int (length xs) \<Longrightarrow>
   py_slice xs i j = take (nat j - nat i) (drop (nat i) xs)"
  by (auto simp: py_slice_def py_bound_nonneg min_def)

lemma py_slice_from_nat:
  "0 \<le> i \<Longrightarrow> py_slice_from xs i = drop (nat i) xs"
  by (simp add: py_slice_from_def py_bound_nonneg min_def)

text \<open>Replacing the closed range [s, e] of a string.\<close>

lemma splice_length:
  assumes "0 \<le> s" "s \<le> e" "e < int (length xs)" "int (length ys) = e - s + 1"
  shows "length (py_slice xs 0 s @ ys @ py_slice_from xs (e + 1)) = length xs"
  using assms by (simp add: py_slice_nat py_slice_from_nat) 

lemma splice_read:
  assumes "0 \<le> s" "s \<le> e" "e < int (length xs)" "int (length ys) = e - s + 1"
  shows "py_slice (py_slice xs 0 s @ ys @ py_slice_from xs (e + 1)) s (e + 1) = ys"
proof -
  have l: "length (take (nat s) xs) = nat s" using assms by simp
  have "py_slice (py_slice xs 0 s @ ys @ py_slice_from xs (e + 1)) s (e + 1)
      = take (nat (e + 1) - nat s) (drop (nat s) (take (nat s) xs @ ys @ drop (nat (e + 1)) xs))"
    using assms splice_length[OF assms]
    by (subst py_slice_nat) (simp_all add: py_slice_nat py_slice_from_nat)
  also have "\<dots> = take (nat (e + 1) - nat s) (ys @ drop (nat (e + 1)) xs)"
    using l by simp
  also have "\<dots> = ys" using assms by (simp add: nat_diff_distrib')
  finally show ?thesis .
qed

lemma splice_restore:
  assumes "0 \<le> s" "s \<le> e" "e < int (length xs)" "int (length ys) = e - s + 1"
  shows "py_slice (py_slice xs 0 s @ ys @ py_slice_from xs (e + 1)) 0 s
           @ py_slice xs s (e + 1)
           @ py_slice_from (py_slice xs 0 s @ ys @ py_slice_from xs (e + 1)) (e + 1) = xs"
proof -
  let ?zs = "py_slice xs 0 s @ ys @ py_slice_from xs (e + 1)"
  have zs: "?zs = take (nat s) xs @ ys @ drop (nat (e + 1)) xs"
    using assms by (simp add: py_slice_nat py_slice_from_nat)
  have l: "length (take (nat s) xs) = nat s" using assms by simp
  have ly: "length ys = nat (e + 1) - nat s" using assms by (simp add: nat_diff_distrib')
  have a: "py_slice ?zs 0 s = take (nat s) xs"
    using assms splice_length[OF assms] l by (subst py_slice_nat) (simp_all add: zs)
  have b: "py_slice_from ?zs (e + 1) = drop (nat (e + 1)) xs"
  proof -
    have "py_slice_from ?zs (e + 1) = drop (nat (e + 1)) (take (nat s) xs @ ys @ drop (nat (e + 1)) xs)"
      using assms by (subst py_slice_from_nat) (simp_all add: zs)
    also have "\<dots> = drop (nat (e + 1) - nat s) (ys @ drop (nat (e + 1)) xs)"
      using l assms by simp
    also have "\<dots> = drop (nat (e + 1)) xs" using ly by simp
    finally show ?thesis .
  qed
  have c: "py_slice xs s (e + 1) = take (nat (e + 1) - nat s) (drop (nat s) xs)"
    using assms by (simp add: py_slice_nat)
  have "take (nat s) xs @ take (nat (e + 1) - nat s) (drop (nat s) xs) @ drop (nat (e + 1)) xs = xs"
  proof -
    have "drop (nat (e + 1)) xs = drop (nat (e + 1) - nat s) (drop (nat s) xs)"
      using assms by simp
    then show ?thesis by (simp only: append_take_drop_id)
  qed
  then show ?thesis by (simp only: a b c)
qed


lemma notify_edit_fields:
  "consensus (notify_edit s e b) = consensus b"
  "undo_stack (notify_edit s e b) = undo_stack b"
  "redo_stack (notify_edit s e b) = redo_stack b"
  by (simp_all add: notify_edit_def Let_def)

lemma undo_fields:
  assumes "undo_stack b = us @ [u]"
  shows "consensus (undo b) =
           py_slice (consensus b) 0 (edit_start u) @ edit_data u
           @ py_slice_from (consensus b) (edit_end u + 1)"
    and "undo_stack (undo b) = us"
    and "redo_stack (undo b) = redo_stack b @
           [\<lparr>edit_start = edit_start u, edit_end = edit_end u,
             edit_data = py_slice (consensus b) (edit_start u) (edit_end u + 1)\<rparr>]"
  using assms by (simp_all add: undo_def Let_def)

lemma redo_fields:
  assumes "redo_stack b = rs @ [r]"
  shows "consensus (redo b) =
           py_slice (consensus b) 0 (edit_start r) @ edit_data r
           @ py_slice_from (consensus b) (edit_end r + 1)"
    and "redo_stack (redo b) = rs"
    and "undo_stack (redo b) = undo_stack b @
           [\<lparr>edit_start = edit_start r, edit_end = edit_end r,
             edit_data = py_slice (consensus b) (edit_start r) (edit_end r + 1)\<rparr>]"
  using assms by (simp_all add: redo_def Let_def)

lemma modifyBases_ordered:
  assumes "swap_points a c = (s, e)" and "int (length newseq) = e - s + 1"
  shows "\<exists>b1. modifyBases a c newseq b = Inr b1 \<and>
           consensus b1 = py_slice (consensus b) 0 s @ newseq @ py_slice_from (consensus b) (e + 1) \<and>
           undo_stack b1 = undo_stack b @
             [\<lparr>edit_start = s, edit_end = e, edit_data = py_slice (consensus b) s (e + 1)\<rparr>] \<and>
           redo_stack b1 = redo_stack b"
  using assms by (simp add: modifyBases_def Let_def notify_edit_fields)

text \<open>
  C7.  For a closed range whose two end points lie inside the consensus string (given in
  either order) and a replacement string of the length of the range, \<open>modifyBases\<close>
  succeeds, a following \<open>undo\<close> restores the consensus string and the undo stack
  as they were before the edit, and a following \<open>redo\<close> gives again the consensus
  string and both stacks that the edit had produced.
\<close>

theorem modifyBases_undo_redo:
  assumes "0 \<le> a" and "a < int (length (consensus b))"
    and "0 \<le> c" and "c < int (length (consensus b))"
    and "int (length newseq) = \<bar>c - a\<bar> + 1"
  shows "\<exists>b1. modifyBases a c newseq b = Inr b1 \<and>
           consensus (undo b1) = consensus b \<and>
           undo_stack (undo b1) = undo_stack b \<and>
           consensus (redo (undo b1)) = consensus b1 \<and>
           undo_stack (redo (undo b1)) = undo_stack b1 \<and>
           redo_stack (redo (undo b1)) = redo_stack b1"
proof -
  obtain s e where se: "swap_points a c = (s, e)" by (cases "swap_points a c")
  with assms have rng: "0 \<le> s" "s \<le> e" "e < int (length (consensus b))"
    and len: "int (length newseq) = e - s + 1"
    by (auto simp: swap_points_def split: if_splits)
  let ?xs = "consensus b"
  let ?old = "\<lparr>edit_start = s, edit_end = e, edit_data = py_slice ?xs s (e + 1)\<rparr>"
  let ?new = "\<lparr>edit_start = s, edit_end = e, edit_data = newseq\<rparr>"
  from modifyBases_ordered [OF se len, of b] obtain b1 where
    b1: "modifyBases a c newseq b = Inr b1"
    and c1: "consensus b1 = py_slice ?xs 0 s @ newseq @ py_slice_from ?xs (e + 1)"
    and u1: "undo_stack b1 = undo_stack b @ [?old]"
    and r1: "redo_stack b1 = redo_stack b"
    by blast
  have c2: "consensus (undo b1) = ?xs"
    using undo_fields(1) [OF u1] splice_restore [OF rng len] by (simp add: c1)
  have u2: "undo_stack (undo b1) = undo_stack b"
    using undo_fields(2) [OF u1] .
  have r2: "redo_stack (undo b1) = redo_stack b @ [?new]"
    using undo_fields(3) [OF u1] splice_read [OF rng len] by (simp add: c1 r1)
  have c3: "consensus (redo (undo b1)) = consensus b1"
    using redo_fields(1) [OF r2] by (simp add: c2 c1)
  have u3: "undo_stack (redo (undo b1)) = undo_stack b1"
    using redo_fields(3) [OF r2] by (simp add: c2 u2 u1)
  have r3: "redo_stack (redo (undo b1)) = redo_stack b1"
    using redo_fields(2) [OF r2] by (simp add: r1)
  from b1 c2 u2 c3 u3 r3 show ?thesis by blast
qed

theorem modifyBases_undo_redo_witness:
  "consensus example_builder = ''ACGTAC'' \<and>
   (\<exists>b1. modifyBases 1 3 ''TTT'' example_builder = Inr b1 \<and>
      consensus b1 = ''ATTTAC'' \<and>
      consensus (undo b1) = ''ACGTAC'' \<and>
      consensus (redo (undo b1)) = ''ATTTAC'')"
proof -
  have h: "(0::int) \<le> 1" "1 < int (length (consensus example_builder))"
    "(0::int) \<le> 3" "3 < int (length (consensus example_builder))"
    "int (length ''TTT'') = \<bar>3 - 1\<bar> + 1"
    by (simp_all add: example_builder_def)
  from modifyBases_undo_redo [OF h] obtain b1 where
    b1: "modifyBases 1 3 ''TTT'' example_builder = Inr b1"
    and rt: "consensus (undo b1) = consensus example_builder"
      "consensus (redo (undo b1)) = consensus b1"
    by blast
  have "consensus b1 = ''ATTTAC''"
    using b1
    by (auto simp: modifyBases_def swap_points_def Let_def notify_edit_fields
        py_slice_def py_slice_from_def py_bound_def example_builder_def)
  with b1 rt show ?thesis by (simp add: example_builder_def)
qed

text \<open>
  C10.  For \<open>0 \<le> a \<le> c < len(consensus)\<close>, \<open>deleteBases(a, c)\<close> leaves the builder
  in the very state in which \<open>modifyBases\<close> leaves it when called with \<open>c - a + 1\<close>
  spaces: the range is replaced by spaces, the undo record pushed holds \<open>a\<close>,
  \<open>c\<close> and the substring the range held, and the event published is
  \<open>consensus_changed\<close> with \<open>(a, c)\<close>, followed by \<open>undo_state_changed\<close> when the
  undo stack was empty.
\<close>

theorem deleteBases_as_modifyBases:
  assumes "0 \<le> a" and "a \<le> c" and "c < int (length (consensus b))"
  shows "modifyBases a c (py_rep (CHR '' '') (c - a + 1)) b = Inr (deleteBases a c b) \<and>
         consensus (deleteBases a c b) =
           take (nat a) (consensus b) @ replicate (nat (c - a + 1)) (CHR '' '')
           @ drop (nat (c + 1)) (consensus b) \<and>
         undo_stack (deleteBases a c b) = undo_stack b @
           [\<lparr>edit_start = a, edit_end = c,
             edit_data = take (nat (c - a + 1)) (drop (nat a) (consensus b))\<rparr>] \<and>
         notified (deleteBases a c b) = notified b @ consensus_changed a c #
           (if undo_stack b = [] then [undo_state_changed True] else [])"
proof -
  have sw: "swap_points a c = (a, c)" using assms by (simp add: swap_points_def)
  have len: "int (length (py_rep (CHR '' '') (c - a + 1))) = c - a + 1"
    using assms by (simp add: py_rep_def)
  have sl: "py_slice (consensus b) a (c + 1) = take (nat (c - a + 1)) (drop (nat a) (consensus b))"
  proof -
    have "nat (c + 1) - nat a = nat (c - a + 1)" using assms by linarith
    then show ?thesis using assms by (simp add: py_slice_nat)
  qed
  have pre: "py_slice (consensus b) 0 a = take (nat a) (consensus b)"
    using assms by (simp add: py_slice_nat)
  have post: "py_slice_from (consensus b) (c + 1) = drop (nat (c + 1)) (consensus b)"
    using assms by (simp add: py_slice_from_nat)
  have eq: "modifyBases a c (py_rep (CHR '' '') (c - a + 1)) b = Inr (deleteBases a c b)"
    using len by (simp add: modifyBases_def deleteBases_def sw Let_def)
  have cons: "consensus (deleteBases a c b) =
           take (nat a) (consensus b) @ replicate (nat (c - a + 1)) (CHR '' '')
           @ drop (nat (c + 1)) (consensus b)"
    by (simp add: deleteBases_def sw Let_def notify_edit_fields pre post py_rep_def)
  have und: "undo_stack (deleteBases a c b) = undo_stack b @
           [\<lparr>edit_start = a, edit_end = c,
             edit_data = take (nat (c - a + 1)) (drop (nat a) (consensus b))\<rparr>]"
    by (simp add: deleteBases_def sw Let_def notify_edit_fields sl)
  have ev: "notified (deleteBases a c b) = notified b @ consensus_changed a c #
           (if undo_stack b = [] then [undo_state_changed True] else [])"
    by (simp add: deleteBases_def sw Let_def notify_edit_def notifyObservers_def)
  from eq cons und ev show ?thesis by blast
qed

theorem deleteBases_as_modifyBases_witness:
  "modifyBases 1 3 ''   '' example_builder = Inr (deleteBases 1 3 example_builder) \<and>
   consensus (deleteBases 1 3 example_builder) = ''A   AC'' \<and>
   undo_stack (deleteBases 1 3 example_builder) =
     [\<lparr>edit_start = 1, edit_end = 3, edit_data = ''CGT''\<rparr>] \<and>
   notified (deleteBases 1 3 example_builder) = [consensus_changed 1 3, undo_state_changed True]"
proof -
  have h: "(0::int) \<le> 1" "(1::int) \<le> 3" "3 < int (length (consensus example_builder))"
    by (simp_all add: example_builder_def)
  have r: "py_rep (CHR '' '') 3 = ''   ''" "replicate 3 (CHR '' '') = ''   ''"
    by (simp_all add: py_rep_def numeral_3_eq_3)
  have ex: "consensus example_builder = ''ACGTAC''" "undo_stack example_builder = []"
    "notified example_builder = []"
    by (simp_all add: example_builder_def)
  show ?thesis
    using deleteBases_as_modifyBases [OF h]
    by (simp add: r ex)
qed

section \<open>Properties of the consensus algorithms\<close>

lemma py_index_nat: "i < length xs \<Longrightarrow> py_index xs (int i) = Inr (xs ! i)"
  by (simp add: py_index_def)

lemma single_column_ok:
  assumes "cnt < length (seq1aligned b)" and "cnt < length (seq1indexed b)"
  shows "single_column b t cnt =
           Inr (if conf1 b (seq1indexed b ! cnt) < t then CHR ''N'' else seq1aligned b ! cnt,
                conf1 b (seq1indexed b ! cnt))"
  using assms by (simp add: single_column_def py_index_nat Let_def)

lemma single_loop_ok:
  assumes "\<forall>cnt\<in>set cnts. cnt < length (seq1aligned b) \<and> cnt < length (seq1indexed b)"
  shows "single_loop b t cnts cons cconf =
           Inr (cons @ map (\<lambda>cnt. if conf1 b (seq1indexed b ! cnt) < t then CHR ''N''
                                   else seq1aligned b ! cnt) cnts,
                cconf @ map (\<lambda>cnt. conf1 b (seq1indexed b ! cnt)) cnts)"
  using assms
proof (induction cnts arbitrary: cons cconf)
  case Nil
  then show ?case by simp
next
  case (Cons cnt cnts)
  then show ?case by (simp add: single_column_ok)
qed

text \<open>
  C3, as the code has it.  When the index map covers every column,
  \<open>makeSingleConsensus\<close> succeeds for every threshold \<open>t\<close>, and at every column the
  recorded score is the trace's score, unmodified; the recorded base is the trace's base
  call when the score is not below \<open>t\<close>, and it is \<open>'N'\<close> exactly when the score is
  below \<open>t\<close> or the trace's base call is itself \<open>'N'\<close>.
\<close>

theorem makeSingleConsensus_threshold:
  assumes "length (seq1aligned b) \<le> length (seq1indexed b)"
  shows "\<exists>b'. makeSingleConsensus t b = Inr b' \<and>
           length (consensus b') = length (seq1aligned b) \<and>
           length (consconf b') = length (seq1aligned b) \<and>
           (\<forall>cnt < length (seq1aligned b).
              (consensus b' ! cnt = CHR ''N'' \<longleftrightarrow>
                 conf1 b (seq1indexed b ! cnt) < t \<or> seq1aligned b ! cnt = CHR ''N'') \<and>
              (\<not> conf1 b (seq1indexed b ! cnt) < t \<longrightarrow>
                 consensus b' ! cnt = seq1aligned b ! cnt) \<and>
              consconf b' ! cnt = conf1 b (seq1indexed b ! cnt))"
proof -
  let ?n = "length (seq1aligned b)"
  have "\<forall>cnt\<in>set [0..<?n]. cnt < length (seq1aligned b) \<and> cnt < length (seq1indexed b)"
    using assms by simp
  from single_loop_ok [OF this, of t "[]" "[]"]
  have "makeSingleConsensus t b =
          Inr (b\<lparr>consensus := map (\<lambda>cnt. if conf1 b (seq1indexed b ! cnt) < t then CHR ''N''
                                   else seq1aligned b ! cnt) [0..<?n],
                 consconf := map (\<lambda>cnt. conf1 b (seq1indexed b ! cnt)) [0..<?n]\<rparr>)"
    by (simp add: makeSingleConsensus_def)
  then show ?thesis by simp
qed

theorem makeSingleConsensus_threshold_witness:
  "\<exists>b'. makeSingleConsensus 30 single_example = Inr b' \<and>
      consensus b' = ''AN'' \<and> consconf b' = [40, 40]"
proof -
  have h: "length (seq1aligned single_example) \<le> length (seq1indexed single_example)"
    by (simp add: single_example_def)
  from makeSingleConsensus_threshold [OF h, of 30] obtain b' where
    r: "makeSingleConsensus 30 single_example = Inr b'" by blast
  have "makeSingleConsensus 30 single_example =
      Inr (single_example\<lparr>consensus := ''AN'', consconf := [40, 40]\<rparr>)"
    by (simp add: makeSingleConsensus_def single_column_def py_index_def single_example_def
        upt_rec [of 0] upt_rec [of 1] upt_rec [of 2] numeral_2_eq_2)
  with r show ?thesis by auto
qed

text \<open>
  The claim as it is worded (the base is \<open>'N'\<close> only if the score is below the
  threshold) fails for a trace that calls \<open>'N'\<close> with a score above the threshold.
\<close>

theorem makeSingleConsensus_N_counterexample:
  "makeSingleConsensus 30 single_example =
     Inr (single_example\<lparr>consensus := ''AN'', consconf := [40, 40]\<rparr>) \<and>
   ''AN'' ! 1 = CHR ''N'' \<and>
   \<not> conf1 single_example (seq1indexed single_example ! 1) < 30"
  by (simp add: makeSingleConsensus_def single_column_def py_index_def single_example_def
      upt_rec [of 0] upt_rec [of 1] upt_rec [of 2] numeral_2_eq_2)

lemma legacy_read_ok:
  assumes "cnt < length aligned" and "cnt < length indexed"
  shows "\<exists>cb'. legacy_read aligned indexed conf cnt cb =
           Inr (cb', spec_legacy_score aligned indexed conf cnt) \<and>
           (- 1 < spec_legacy_score aligned indexed conf cnt \<longrightarrow> cb' = Some (aligned ! cnt))"
  using assms
  by (simp add: legacy_read_def spec_legacy_score_def py_index_nat)

lemma legacy_decide_ok:
  assumes "- 1 < m"
    and "- 1 < s1 \<longrightarrow> cb1 = Some c1"
    and "- 1 < s2 \<longrightarrow> cb2 = Some c2"
  shows "legacy_decide m cb1 s1 cb2 s2 =
           Inr (Some (spec_legacy_base m c1 s1 c2 s2), if m \<le> s1 \<or> \<not> m \<le> s2 then s1 else s2)"
  using assms
  by (auto simp: legacy_decide_def spec_legacy_base_def)

lemma legacy_column_ok:
  assumes "cnt < length (seq1aligned b)" and "cnt < length (seq2aligned b)"
    and "cnt < length (seq1indexed b)" and "cnt < length (seq2indexed b)"
    and "- 1 < m"
  shows "\<exists>cb' cb2'. legacy_column b m cnt cb cb2 =
           Inr (cb', cb2',
                spec_legacy_base m (seq1aligned b ! cnt)
                  (spec_legacy_score (seq1aligned b) (seq1indexed b) (conf1 b) cnt)
                  (seq2aligned b ! cnt)
                  (spec_legacy_score (seq2aligned b) (seq2indexed b) (conf2 b) cnt),
                max (spec_legacy_score (seq1aligned b) (seq1indexed b) (conf1 b) cnt)
                    (spec_legacy_score (seq2aligned b) (seq2indexed b) (conf2 b) cnt))"
proof -
  let ?s1 = "spec_legacy_score (seq1aligned b) (seq1indexed b) (conf1 b) cnt"
  let ?s2 = "spec_legacy_score (seq2aligned b) (seq2indexed b) (conf2 b) cnt"
  from legacy_read_ok [OF assms(1) assms(3), of "conf1 b" cb] obtain cb1 where
    r1: "legacy_read (seq1aligned b) (seq1indexed b) (conf1 b) cnt cb = Inr (cb1, ?s1)"
    and u1: "- 1 < ?s1 \<longrightarrow> cb1 = Some (seq1aligned b ! cnt)" by blast
  from legacy_read_ok [OF assms(2) assms(4), of "conf2 b" cb2] obtain cb2a where
    r2: "legacy_read (seq2aligned b) (seq2indexed b) (conf2 b) cnt cb2 = Inr (cb2a, ?s2)"
    and u2: "- 1 < ?s2 \<longrightarrow> cb2a = Some (seq2aligned b ! cnt)" by blast
  from legacy_decide_ok [OF assms(5) u1 u2] have
    d: "legacy_decide m cb1 ?s1 cb2a ?s2 =
          Inr (Some (spec_legacy_base m (seq1aligned b ! cnt) ?s1 (seq2aligned b ! cnt) ?s2),
               if m \<le> ?s1 \<or> \<not> m \<le> ?s2 then ?s1 else ?s2)" .
  have "(if (if m \<le> ?s1 \<or> \<not> m \<le> ?s2 then ?s1 else ?s2) > ?s2
         then (if m \<le> ?s1 \<or> \<not> m \<le> ?s2 then ?s1 else ?s2) else ?s2) = max ?s1 ?s2"
    by (simp add: max_def)
  then show ?thesis
    by (simp add: legacy_column_def r1 r2 d)
qed

lemma legacy_loop_ok:
  assumes "\<forall>cnt\<in>set cnts. cnt < length (seq1aligned b) \<and> cnt < length (seq2aligned b) \<and>
             cnt < length (seq1indexed b) \<and> cnt < length (seq2indexed b)"
    and "- 1 < m"
  shows "legacy_loop b m cnts cb cb2 cons cconf =
           Inr (cons @ map (\<lambda>cnt. spec_legacy_base m (seq1aligned b ! cnt)
                  (spec_legacy_score (seq1aligned b) (seq1indexed b) (conf1 b) cnt)
                  (seq2aligned b ! cnt)
                  (spec_legacy_score (seq2aligned b) (seq2indexed b) (conf2 b) cnt)) cnts,
                cconf @ map (\<lambda>cnt. max
                  (spec_legacy_score (seq1aligned b) (seq1indexed b) (conf1 b) cnt)
                  (spec_legacy_score (seq2aligned b) (seq2indexed b) (conf2 b) cnt)) cnts)"
  using assms(1)
proof (induction cnts arbitrary: cb cb2 cons cconf)
  case Nil
  then show ?case by simp
next
  case (Cons cnt cnts)
  then have rng: "cnt < length (seq1aligned b)" "cnt < length (seq2aligned b)"
      "cnt < length (seq1indexed b)" "cnt < length (seq2indexed b)"
    and rest: "\<forall>cnt\<in>set cnts. cnt < length (seq1aligned b) \<and> cnt < length (seq2aligned b) \<and>
             cnt < length (seq1indexed b) \<and> cnt < length (seq2indexed b)"
    by simp_all
  from legacy_column_ok [OF rng assms(2), of cb cb2] obtain cb' cb2' where
    col: "legacy_column b m cnt cb cb2 =
           Inr (cb', cb2',
                spec_legacy_base m (seq1aligned b ! cnt)
                  (spec_legacy_score (seq1aligned b) (seq1indexed b) (conf1 b) cnt)
                  (seq2aligned b ! cnt)
                  (spec_legacy_score (seq2aligned b) (seq2indexed b) (conf2 b) cnt),
                max (spec_legacy_score (seq1aligned b) (seq1indexed b) (conf1 b) cnt)
                    (spec_legacy_score (seq2aligned b) (seq2indexed b) (conf2 b) cnt))"
    by blast
  show ?case
    by (simp add: col Cons.IH [OF rest])
qed

text \<open>
  C2.  For two aligned sequences with index maps of the alignment's length and a
  threshold above the sentinel (the settings keep it between 1 and 61),
  \<open>makeLegacyConsensus\<close> succeeds, and at every column the recorded base is the one
  the specification describes from the two contributed scores (\<open>spec_legacy_base\<close>
  over \<open>spec_legacy_score\<close>), while the recorded score is the larger of the two
  contributed scores, whatever the recorded base.
\<close>

theorem makeLegacyConsensus_columns:
  assumes "length (seq2aligned b) = length (seq1aligned b)"
    and "length (seq1indexed b) = length (seq1aligned b)"
    and "length (seq2indexed b) = length (seq1aligned b)"
    and "- 1 < m"
  shows "\<exists>b'. makeLegacyConsensus m b = Inr b' \<and>
           length (consensus b') = length (seq1aligned b) \<and>
           length (consconf b') = length (seq1aligned b) \<and>
           (\<forall>cnt < length (seq1aligned b).
              consensus b' ! cnt =
                spec_legacy_base m (seq1aligned b ! cnt)
                  (spec_legacy_score (seq1aligned b) (seq1indexed b) (conf1 b) cnt)
                  (seq2aligned b ! cnt)
                  (spec_legacy_score (seq2aligned b) (seq2indexed b) (conf2 b) cnt) \<and>
              consconf b' ! cnt =
                max (spec_legacy_score (seq1aligned b) (seq1indexed b) (conf1 b) cnt)
                    (spec_legacy_score (seq2aligned b) (seq2indexed b) (conf2 b) cnt))"
proof -
  let ?n = "length (seq1aligned b)"
  have "\<forall>cnt\<in>set [0..<?n]. cnt < length (seq1aligned b) \<and> cnt < length (seq2aligned b) \<and>
             cnt < length (seq1indexed b) \<and> cnt < length (seq2indexed b)"
    using assms by simp
  from legacy_loop_ok [OF this assms(4), of None None "[]" "[]"]
  show ?thesis by (simp add: makeLegacyConsensus_def)
qed

theorem makeLegacyConsensus_columns_witness:
  "\<exists>b'. makeLegacyConsensus 30 pair_example = Inr b' \<and>
      consensus b' = ''ACNTA'' \<and> consconf b' = [40, 40, 40, 35, 35]"
proof -
  have h: "length (seq2aligned pair_example) = length (seq1aligned pair_example)"
    "length (seq1indexed pair_example) = length (seq1aligned pair_example)"
    "length (seq2indexed pair_example) = length (seq1aligned pair_example)"
    "- 1 < (30::real)"
    by (simp_all add: pair_example_def)
  from makeLegacyConsensus_columns [OF h] obtain b' where
    r: "makeLegacyConsensus 30 pair_example = Inr b'"
    and len: "length (consensus b') = length (seq1aligned pair_example)"
      "length (consconf b') = length (seq1aligned pair_example)"
    and col: "\<forall>cnt < length (seq1aligned pair_example).
              consensus b' ! cnt =
                spec_legacy_base 30 (seq1aligned pair_example ! cnt)
                  (spec_legacy_score (seq1aligned pair_example) (seq1indexed pair_example)
                     (conf1 pair_example) cnt)
                  (seq2aligned pair_example ! cnt)
                  (spec_legacy_score (seq2aligned pair_example) (seq2indexed pair_example)
                     (conf2 pair_example) cnt) \<and>
              consconf b' ! cnt =
                max (spec_legacy_score (seq1aligned pair_example) (seq1indexed pair_example)
                       (conf1 pair_example) cnt)
                    (spec_legacy_score (seq2aligned pair_example) (seq2indexed pair_example)
                       (conf2 pair_example) cnt)"
    by blast
  have n: "length (seq1aligned pair_example) = 5" by (simp add: pair_example_def)
  have c: "consensus b' ! 0 = CHR ''A''" "consensus b' ! 1 = CHR ''C''"
    "consensus b' ! 2 = CHR ''N''" "consensus b' ! 3 = CHR ''T''" "consensus b' ! 4 = CHR ''A''"
    using col
    by (simp_all add: n pair_example_def spec_legacy_base_def spec_legacy_score_def)
  have s: "consconf b' ! 0 = 40" "consconf b' ! 1 = 40"
    "consconf b' ! 2 = 40" "consconf b' ! 3 = 35" "consconf b' ! 4 = 35"
    using col
    by (simp_all add: n pair_example_def spec_legacy_score_def)
  have "consensus b' = ''ACNTA''"
    using len(1) c by (simp add: n list_eq_iff_nth_eq less_Suc_eq eval_nat_numeral)
  moreover have "consconf b' = [40, 40, 40, 35, 35]"
    using len(2) s by (simp add: n list_eq_iff_nth_eq less_Suc_eq eval_nat_numeral)
  ultimately show ?thesis using r by blast
qed

section \<open>Properties of quality trimming\<close>

declare trim_left.simps [simp del] trim_right.simps [simp del]

lemma py_index_int:
  "0 \<le> i \<Longrightarrow> i < int (length xs) \<Longrightarrow> py_index xs i = Inr (xs ! nat i)"
  by (simp add: py_index_def)

lemma base_to_int_alphabet:
  "c \<in> set ''ACGTN '' \<Longrightarrow> \<exists>v. base_to_int c = Some v \<and> (v = 0 \<or> v = 1)"
  by (auto simp: base_to_int_def)

lemma base_to_int_N: "base_to_int (CHR ''N'') = Some 0"
  by (simp add: base_to_int_def)

lemma consvals_of_ok:
  "set cons \<subseteq> set ''ACGTN '' \<Longrightarrow>
   \<exists>vs. consvals_of cons = Inr vs \<and> length vs = length cons"
proof (induction cons)
  case Nil
  then show ?case by simp
next
  case (Cons c cons)
  then obtain vs where vs: "consvals_of cons = Inr vs" "length vs = length cons" by auto
  from Cons.prems have "c \<in> set ''ACGTN ''" by simp
  from base_to_int_alphabet [OF this] obtain v where "base_to_int c = Some v" by blast
  with vs show ?case by simp
qed

lemma consvals_of_allN:
  "set cons \<subseteq> {CHR ''N''} \<Longrightarrow> consvals_of cons = Inr (replicate (length cons) 0)"
proof (induction cons)
  case Nil
  then show ?case by simp
next
  case (Cons c cons)
  then show ?case by (simp add: base_to_int_N)
qed

lemma trim_left_ok:
  assumes "0 \<le> w" and "0 \<le> index" and "index + w \<le> int (length cv)"
  shows "\<exists>l g. trim_left cv w bc index ng = Inr (l, g) \<and> index \<le> l \<and>
           l + w \<le> int (length cv) \<and>
           ((\<forall>v\<in>set cv. v = 0) \<and> ng = 0 \<longrightarrow> g = 0)"
  using assms
proof (induction cv w bc index ng rule: trim_left.induct)
  case (1 consvals winsize basecnt index num_good)
  show ?case
  proof (cases "num_good < basecnt \<and> index + winsize < int (length consvals)")
    case False
    then show ?thesis
      using "1.prems" by (subst trim_left.simps) auto
  next
    case True
    let ?v_in = "consvals ! nat (index + winsize)"
    let ?v_out = "consvals ! nat index"
    have i1: "py_index consvals (index + winsize) = Inr ?v_in"
      using True "1.prems" by (intro py_index_int) auto
    have i2: "py_index consvals index = Inr ?v_out"
      using True "1.prems" by (intro py_index_int) auto
    have m1: "?v_in \<in> set consvals" using True "1.prems" by (intro nth_mem) auto
    have m2: "?v_out \<in> set consvals" using True "1.prems" by (intro nth_mem) auto
    have "\<exists>l g. trim_left consvals winsize basecnt (index + 1) (num_good + ?v_in - ?v_out)
              = Inr (l, g) \<and> index + 1 \<le> l \<and> l + winsize \<le> int (length consvals) \<and>
           ((\<forall>v\<in>set consvals. v = 0) \<and> num_good + ?v_in - ?v_out = 0 \<longrightarrow> g = 0)"
      using True "1.prems" by (intro "1.IH" [OF True i1 i2]) auto
    then obtain l g where
      r: "trim_left consvals winsize basecnt (index + 1) (num_good + ?v_in - ?v_out) = Inr (l, g)"
      and b: "index + 1 \<le> l" "l + winsize \<le> int (length consvals)"
      and z: "(\<forall>v\<in>set consvals. v = 0) \<and> num_good + ?v_in - ?v_out = 0 \<longrightarrow> g = 0"
      by blast
    have "trim_left consvals winsize basecnt index num_good = Inr (l, g)"
      using True by (subst trim_left.simps) (simp add: i1 i2 r)
    moreover have "(\<forall>v\<in>set consvals. v = 0) \<and> num_good = 0 \<longrightarrow> g = 0"
    proof
      assume a: "(\<forall>v\<in>set consvals. v = 0) \<and> num_good = 0"
      with m1 m2 have "?v_in = 0" "?v_out = 0" by blast+
      with a z show "g = 0" by simp
    qed
    ultimately show ?thesis using b by auto
  qed
qed

lemma trim_right_ok:
  assumes "0 \<le> w" and "0 \<le> il" and "il + w - 1 \<le> index" and "index < int (length cv)"
  shows "\<exists>r g. trim_right cv w bc il index ng = Inr (r, g) \<and> il + w - 1 \<le> r \<and> r \<le> index \<and>
           ((\<forall>v\<in>set cv. v = 0) \<and> ng = 0 \<longrightarrow> g = 0)"
  using assms
proof (induction cv w bc il index ng rule: trim_right.induct)
  case (1 consvals winsize basecnt index_left index num_good)
  show ?case
  proof (cases "num_good < basecnt \<and> index - winsize \<ge> index_left")
    case False
    then show ?thesis
      using "1.prems" by (subst trim_right.simps) auto
  next
    case True
    let ?v_in = "consvals ! nat (index - winsize)"
    let ?v_out = "consvals ! nat index"
    have i1: "py_index consvals (index - winsize) = Inr ?v_in"
      using True "1.prems" by (intro py_index_int) auto
    have i2: "py_index consvals index = Inr ?v_out"
      using True "1.prems" by (intro py_index_int) auto
    have m1: "?v_in \<in> set consvals" using True "1.prems" by (intro nth_mem) auto
    have m2: "?v_out \<in> set consvals" using True "1.prems" by (intro nth_mem) auto
    have "\<exists>r g. trim_right consvals winsize basecnt index_left (index - 1)
                   (num_good + ?v_in - ?v_out) = Inr (r, g) \<and>
             index_left + winsize - 1 \<le> r \<and> r \<le> index - 1 \<and>
           ((\<forall>v\<in>set consvals. v = 0) \<and> num_good + ?v_in - ?v_out = 0 \<longrightarrow> g = 0)"
      using True "1.prems" by (intro "1.IH" [OF True i1 i2]) auto
    then obtain r g where
      r: "trim_right consvals winsize basecnt index_left (index - 1)
            (num_good + ?v_in - ?v_out) = Inr (r, g)"
      and b: "index_left + winsize - 1 \<le> r" "r \<le> index - 1"
      and z: "(\<forall>v\<in>set consvals. v = 0) \<and> num_good + ?v_in - ?v_out = 0 \<longrightarrow> g = 0"
      by blast
    have "trim_right consvals winsize basecnt index_left index num_good = Inr (r, g)"
      using True by (subst trim_right.simps) (simp add: i1 i2 r)
    moreover have "(\<forall>v\<in>set consvals. v = 0) \<and> num_good = 0 \<longrightarrow> g = 0"
    proof
      assume a: "(\<forall>v\<in>set consvals. v = 0) \<and> num_good = 0"
      with m1 m2 have "?v_in = 0" "?v_out = 0" by blast+
      with a z show "g = 0" by simp
    qed
    ultimately show ?thesis using b by auto
  qed
qed

lemma sum_list_zero: "\<forall>v\<in>set xs. v = (0::int) \<Longrightarrow> sum_list xs = 0"
  by (induction xs) auto

lemma py_slice_subset: "set (py_slice xs i j) \<subseteq> set xs"
  unfolding py_slice_def by (meson set_take_subset set_drop_subset subset_trans)

lemma sum_list_py_slice_zero:
  assumes "\<forall>v\<in>set xs. v = (0::int)"
  shows "sum_list (py_slice xs i j) = 0"
  using assms py_slice_subset [of xs i j] by (intro sum_list_zero) blast

text \<open>The result of \<open>trimConsensus\<close> in terms of what its two loops return.\<close>

lemma trimConsensus_unfold:
  assumes "\<not> int (length (consensus b)) < w"
    and "consvals_of (consensus b) = Inr cv"
    and "trim_left cv w g 0 (sum_list (py_slice cv 0 w)) = Inr (il, gl)"
    and "trim_right cv w g il (int (length (consensus b)) - 1)
           (sum_list (py_slice cv (int (length cv) - w) (int (length cv)))) = Inr (ir, gr)"
  shows "trimConsensus w g b =
           Inr (b\<lparr>consensus :=
                  (if gr < g then py_rep (CHR '' '') (int (length (consensus b)))
                   else py_rep (CHR '' '') il @ py_slice (consensus b) il (ir + 1)
                        @ py_rep (CHR '' '') (int (length (consensus b)) - ir - 1))\<rparr>)"
  using assms by (simp add: trimConsensus_def Let_def)

lemma trimConsensus_general:
  assumes alph: "set (consensus b) \<subseteq> set ''ACGTN ''" and w: "0 \<le> w"
  shows "\<exists>b' l r. trimConsensus w g b = Inr b' \<and> l \<le> r \<and> r \<le> length (consensus b) \<and>
           consensus b' = replicate l (CHR '' '') @ take (r - l) (drop l (consensus b))
                          @ replicate (length (consensus b) - r) (CHR '' '') \<and>
           length (consensus b') = length (consensus b)"
proof (cases "int (length (consensus b)) < w")
  case True
  then have "trimConsensus w g b = Inr b" by (simp add: trimConsensus_def Let_def)
  moreover have "consensus b = replicate 0 (CHR '' '')
      @ take (length (consensus b) - 0) (drop 0 (consensus b))
      @ replicate (length (consensus b) - length (consensus b)) (CHR '' '')" by simp
  ultimately show ?thesis by blast
next
  case False
  let ?n = "int (length (consensus b))"
  from consvals_of_ok [OF alph] obtain cv where
    cv: "consvals_of (consensus b) = Inr cv" and lcv: "length cv = length (consensus b)"
    by blast
  from False have wn: "0 + w \<le> int (length cv)" by (simp add: lcv)
  from trim_left_ok [OF w _ wn, of g "sum_list (py_slice cv 0 w)"] obtain il gl where
    tl: "trim_left cv w g 0 (sum_list (py_slice cv 0 w)) = Inr (il, gl)"
    and il: "0 \<le> il" "il + w \<le> int (length cv)"
    by auto
  have "il + w - 1 \<le> ?n - 1" "?n - 1 < int (length cv)" using il lcv by simp_all
  from trim_right_ok [OF w il(1) this,
      of g "sum_list (py_slice cv (int (length cv) - w) (int (length cv)))"]
  obtain ir gr where
    tr: "trim_right cv w g il (?n - 1)
           (sum_list (py_slice cv (int (length cv) - w) (int (length cv)))) = Inr (ir, gr)"
    and ir: "il + w - 1 \<le> ir" "ir \<le> ?n - 1"
    by auto
  note res = trimConsensus_unfold [OF False cv tl tr]
  show ?thesis
  proof (cases "gr < g")
    case True
    let ?m = "length (consensus b)"
    have "trimConsensus w g b = Inr (b\<lparr>consensus := replicate ?m (CHR '' '')\<rparr>)"
      using res True by (simp add: py_rep_def)
    moreover have "consensus (b\<lparr>consensus := replicate ?m (CHR '' '')\<rparr>)
        = replicate ?m (CHR '' '') @ take (?m - ?m) (drop ?m (consensus b))
          @ replicate (?m - ?m) (CHR '' '')" by simp
    moreover have "length (consensus (b\<lparr>consensus := replicate ?m (CHR '' '')\<rparr>)) = ?m"
      by simp
    ultimately show ?thesis by blast
  next
    case False
    let ?l = "nat il" and ?r = "nat (ir + 1)"
    have b1: "?l \<le> ?r" "?r \<le> length (consensus b)" using il ir w by linarith+
    have sl: "py_slice (consensus b) il (ir + 1) = take (?r - ?l) (drop ?l (consensus b))"
      using il ir w by (intro py_slice_nat) linarith+
    have tail: "nat (?n - ir - 1) = length (consensus b) - ?r" using il ir w by linarith
    let ?c = "replicate ?l (CHR '' '') @ take (?r - ?l) (drop ?l (consensus b))
                @ replicate (length (consensus b) - ?r) (CHR '' '')"
    have "trimConsensus w g b = Inr (b\<lparr>consensus := ?c\<rparr>)"
      using res False by (simp add: py_rep_def sl tail)
    moreover have "consensus (b\<lparr>consensus := ?c\<rparr>) = ?c" by simp
    moreover have "length (consensus (b\<lparr>consensus := ?c\<rparr>)) = length (consensus b)"
      using b1 by simp
    ultimately show ?thesis using b1 by blast
  qed
qed

lemma trimConsensus_example:
  assumes "consensus b = ''NNNACGTNNN''"
  shows "trimConsensus 3 2 b = Inr (b\<lparr>consensus := ''  NACGTN  ''\<rparr>)"
proof -
  have cv: "consvals_of (consensus b) = Inr [0, 0, 0, 1, 1, 1, 1, 0, 0, 0]"
    by (simp add: assms base_to_int_def)
  have s1: "sum_list (py_slice [0, 0, 0, 1, 1, 1, 1, 0, 0, 0::int] 0 3) = 0"
    by (simp add: py_slice_def py_bound_def)
  have s2: "sum_list (py_slice [0, 0, 0, 1, 1, 1, 1, 0, 0, 0::int] 7 10) = 0"
    by (simp add: py_slice_def py_bound_def)
  have tl: "trim_left [0, 0, 0, 1, 1, 1, 1, 0, 0, 0] 3 2 0 0 = Inr (2, 2)"
    by (simp add: trim_left.simps py_index_def)
  have tr: "trim_right [0, 0, 0, 1, 1, 1, 1, 0, 0, 0] 3 2 2 9 0 = Inr (7, 2)"
    by (simp add: trim_right.simps py_index_def)
  have n: "\<not> int (length (consensus b)) < 3" "int (length (consensus b)) - 1 = 9"
    by (simp_all add: assms)
  have "trimConsensus 3 2 b =
      Inr (b\<lparr>consensus :=
             (if (2::int) < 2 then py_rep (CHR '' '') (int (length (consensus b)))
              else py_rep (CHR '' '') 2 @ py_slice (consensus b) 2 (7 + 1)
                   @ py_rep (CHR '' '') (int (length (consensus b)) - 7 - 1))\<rparr>)"
    by (rule trimConsensus_unfold [OF n(1) cv]) (simp_all add: s1 s2 tl tr n(2))
  also have "(if (2::int) < 2 then py_rep (CHR '' '') (int (length (consensus b)))
              else py_rep (CHR '' '') 2 @ py_slice (consensus b) 2 (7 + 1)
                   @ py_rep (CHR '' '') (int (length (consensus b)) - 7 - 1)) = ''  NACGTN  ''"
    by (simp add: assms py_rep_def py_slice_def py_bound_def numeral_2_eq_2)
  finally show ?thesis .
qed

text \<open>
  C4.  On the consensus string \<open>"NNNACGTNNN"\<close> with window 3 and 2 good bases,
  \<open>trimConsensus\<close> gives \<open>"  NACGTN  "\<close>.  In general, on a consensus string over
  the bases, \<open>'N'\<close> and the space, and with a window that is not negative, it
  succeeds and its result is the consensus string with a prefix and a suffix replaced by
  spaces, the positions between the two cutoffs unchanged; the length is the same.
\<close>

theorem trimConsensus_masks:
  "(consensus b = ''NNNACGTNNN'' \<longrightarrow>
      trimConsensus 3 2 b = Inr (b\<lparr>consensus := ''  NACGTN  ''\<rparr>)) \<and>
   (set (consensus b) \<subseteq> set ''ACGTN '' \<and> 0 \<le> w \<longrightarrow>
      (\<exists>b' l r. trimConsensus w g b = Inr b' \<and> l \<le> r \<and> r \<le> length (consensus b) \<and>
         consensus b' = replicate l (CHR '' '') @ take (r - l) (drop l (consensus b))
                        @ replicate (length (consensus b) - r) (CHR '' '') \<and>
         length (consensus b') = length (consensus b)))"
  using trimConsensus_example [of b] trimConsensus_general [of b w g] by blast

theorem trimConsensus_masks_witness:
  "trimConsensus 3 2 trim_example = Inr (trim_example\<lparr>consensus := ''  NACGTN  ''\<rparr>) \<and>
   (\<exists>b' l r. trimConsensus 3 2 trim_example = Inr b' \<and> l \<le> r \<and>
      r \<le> length (consensus trim_example) \<and>
      consensus b' = replicate l (CHR '' '') @ take (r - l) (drop l (consensus trim_example))
                     @ replicate (length (consensus trim_example) - r) (CHR '' '') \<and>
      length (consensus b') = length (consensus trim_example))"
proof -
  have h: "consensus trim_example = ''NNNACGTNNN''"
    "set (consensus trim_example) \<subseteq> set ''ACGTN '' \<and> (0::int) \<le> 3"
    by (simp_all add: trim_example_def)
  from trimConsensus_masks [of trim_example 3 2] h show ?thesis by blast
qed

text \<open>
  On a consensus string of \<open>'N'\<close> only, with a window between 0 and the length of
  the string and a positive number of good bases asked for, both loops run with a count
  of 0 and the whole string is blanked.
\<close>

lemma trimConsensus_allN_blank:
  assumes "set (consensus b) \<subseteq> {CHR ''N''}"
    and "0 \<le> w" and "w \<le> int (length (consensus b))" and "0 < g"
  shows "trimConsensus w g b =
           Inr (b\<lparr>consensus := replicate (length (consensus b)) (CHR '' '')\<rparr>)"
proof -
  let ?n = "int (length (consensus b))"
  let ?cv = "replicate (length (consensus b)) (0::int)"
  have cv: "consvals_of (consensus b) = Inr ?cv"
    using assms(1) by (rule consvals_of_allN)
  have z: "\<forall>v\<in>set ?cv. v = 0" by simp
  have wn: "0 + w \<le> int (length ?cv)" using assms(3) by simp
  have s1: "sum_list (py_slice ?cv 0 w) = 0" using z by (rule sum_list_py_slice_zero)
  have s2: "sum_list (py_slice ?cv (int (length ?cv) - w) (int (length ?cv))) = 0"
    using z by (rule sum_list_py_slice_zero)
  from trim_left_ok [OF assms(2) _ wn, of g 0] z obtain il where
    tl: "trim_left ?cv w g 0 0 = Inr (il, 0)"
    and il: "0 \<le> il" "il + w \<le> int (length ?cv)"
    by auto
  have "il + w - 1 \<le> ?n - 1" "?n - 1 < int (length ?cv)" using il by simp_all
  from trim_right_ok [OF assms(2) il(1) this, of g 0] z obtain ir where
    tr: "trim_right ?cv w g il (?n - 1) 0 = Inr (ir, 0)"
    by auto
  have nw: "\<not> ?n < w" using assms(3) by simp
  have "trimConsensus w g b =
      Inr (b\<lparr>consensus :=
             (if 0 < g then py_rep (CHR '' '') ?n
              else py_rep (CHR '' '') il @ py_slice (consensus b) il (ir + 1)
                   @ py_rep (CHR '' '') (?n - ir - 1))\<rparr>)"
    by (rule trimConsensus_unfold [OF nw cv]) (simp_all only: s1 s2 tl tr)
  then show ?thesis using assms(4) by (simp add: py_rep_def)
qed

text \<open>With a window longer than the string \<open>trimConsensus\<close> returns at once.\<close>

lemma trimConsensus_short:
  assumes "int (length (consensus b)) < w"
  shows "trimConsensus w g b = Inr b"
  using assms by (simp add: trimConsensus_def Let_def)

text \<open>
  C5, as the code has it.  On a consensus string of \<open>'N'\<close> only and with a positive
  number of good bases asked for, \<open>trimConsensus\<close> blanks the whole string for every
  window between 0 and the length of the string, and leaves the builder as it is for
  every window longer than the string.
\<close>

theorem trimConsensus_allN:
  assumes "set (consensus b) \<subseteq> {CHR ''N''}" and "0 < g"
  shows "(0 \<le> w \<and> w \<le> int (length (consensus b)) \<longrightarrow>
            trimConsensus w g b =
              Inr (b\<lparr>consensus := replicate (length (consensus b)) (CHR '' '')\<rparr>)) \<and>
         (int (length (consensus b)) < w \<longrightarrow> trimConsensus w g b = Inr b)"
  using trimConsensus_allN_blank [OF assms(1) _ _ assms(2), of w] trimConsensus_short [of b w g]
  by blast

theorem trimConsensus_allN_witness:
  "trimConsensus 2 1 allN_example = Inr (allN_example\<lparr>consensus := ''  ''\<rparr>) \<and>
   trimConsensus 5 1 allN_example = Inr allN_example"
proof -
  have h: "set (consensus allN_example) \<subseteq> {CHR ''N''}" "(0::int) < 1"
    by (simp_all add: allN_example_def)
  have w2: "(0::int) \<le> 2 \<and> 2 \<le> int (length (consensus allN_example))"
    and w5: "int (length (consensus allN_example)) < 5"
    by (simp_all add: allN_example_def)
  have r: "replicate (length (consensus allN_example)) (CHR '' '') = ''  ''"
    by (simp add: allN_example_def)
  from trimConsensus_allN [OF h, of 2] w2
  have "trimConsensus 2 1 allN_example = Inr (allN_example\<lparr>consensus := ''  ''\<rparr>)"
    by (simp add: r)
  moreover from trimConsensus_allN [OF h, of 5] w5
  have "trimConsensus 5 1 allN_example = Inr allN_example" by simp
  ultimately show ?thesis by simp
qed

text \<open>
  With a window longer than the string \<open>trimConsensus\<close> returns at once and the
  string of \<open>'N'\<close> stays as it is, so the claim does not hold for every window.
\<close>

theorem trimConsensus_allN_counterexample:
  "set (consensus allN_example) \<subseteq> {CHR ''N''} \<and> (0::int) < 1 \<and>
   trimConsensus 3 1 allN_example = Inr allN_example \<and>
   consensus allN_example = ''NN''"
  by (simp add: trimConsensus_def allN_example_def)

section \<open>Properties of the Bayesian consensus\<close>

lemma defineBasePrDist_bases:
  assumes "x \<in> set bases"
  shows "defineBasePrDist b s d x = spec_call_dist b s x"
  using assms
  by (auto simp: defineBasePrDist_def spec_call_dist_def spec_error_prob_def bases_def Let_def)

lemma spec_error_prob_range: "0 \<le> s \<Longrightarrow> 0 < spec_error_prob s \<and> spec_error_prob s \<le> 1"
proof -
  assume "0 \<le> s"
  then have "s / - 10 \<le> 0" by simp
  then have "(10::real) powr (s / - 10) \<le> 10 powr 0" by (intro powr_mono) simp_all
  then show ?thesis by (simp add: spec_error_prob_def)
qed

lemma spec_call_dist_nonneg: "0 \<le> s \<Longrightarrow> 0 \<le> spec_call_dist b s x"
  using spec_error_prob_range [of s] by (simp add: spec_call_dist_def)

lemma spec_call_dist_other: "0 \<le> s \<Longrightarrow> x \<noteq> b \<Longrightarrow> 0 < spec_call_dist b s x"
  using spec_error_prob_range [of s] by (simp add: spec_call_dist_def)

lemma fourth_base: "\<exists>y\<in>set bases. y \<noteq> c1 \<and> y \<noteq> c2 \<and> y \<noteq> x"
proof -
  have "card (set bases - {c1, c2, x}) \<ge> card (set bases) - card {c1, c2, x}"
    by (intro diff_card_le_card_Diff) simp
  moreover have "card (set bases) = 4" by (simp add: bases_def)
  moreover have "card {c1, c2, x} \<le> 3" by (simp add: card_insert_if)
  ultimately have "card (set bases - {c1, c2, x}) > 0" by linarith
  then have "set bases - {c1, c2, x} \<noteq> {}" by (metis card.empty less_numeral_extra(3))
  then show ?thesis by blast
qed

lemma distinct_bases: "distinct bases"
  by (simp add: bases_def)

lemma spec_denominator_pos:
  assumes "0 \<le> s1" and "0 \<le> s2"
  shows "0 < (\<Sum>y\<leftarrow>bases. spec_call_dist c2 s2 y * spec_call_dist c1 s1 y)"
proof -
  let ?P = "\<lambda>y. spec_call_dist c2 s2 y * spec_call_dist c1 s1 y"
  have nn: "\<And>y. 0 \<le> ?P y"
    using assms by (simp add: spec_call_dist_nonneg)
  from fourth_base [of c1 c2 c1] obtain y where y: "y \<in> set bases" "y \<noteq> c1" "y \<noteq> c2"
    by blast
  then have "0 < ?P y" using assms by (simp add: spec_call_dist_other)
  also have "?P y \<le> sum ?P (set bases)"
    using y(1) nn by (intro member_le_sum) simp_all
  also have "\<dots> = (\<Sum>y\<leftarrow>bases. ?P y)"
    using distinct_bases by (simp add: sum_list_distinct_conv_sum_set)
  finally show ?thesis .
qed

lemma spec_posterior_range:
  assumes "0 \<le> s1" and "0 \<le> s2" and "x \<in> set bases"
  shows "0 \<le> spec_posterior c1 s1 c2 s2 x \<and> spec_posterior c1 s1 c2 s2 x < 1"
proof -
  let ?P = "\<lambda>y. spec_call_dist c2 s2 y * spec_call_dist c1 s1 y"
  let ?D = "\<Sum>y\<leftarrow>bases. ?P y"
  have nn: "\<And>y. 0 \<le> ?P y"
    using assms by (simp add: spec_call_dist_nonneg)
  have D: "0 < ?D" using assms(1,2) by (rule spec_denominator_pos)
  have Ds: "?D = sum ?P (set bases)"
    using distinct_bases by (simp add: sum_list_distinct_conv_sum_set)
  from fourth_base [of c1 c2 x] obtain y where
    y: "y \<in> set bases" "y \<noteq> c1" "y \<noteq> c2" "y \<noteq> x" by blast
  then have py: "0 < ?P y" using assms by (simp add: spec_call_dist_other)
  have "?P x + ?P y = sum ?P {x, y}" using y(4) by simp
  also have "\<dots> \<le> sum ?P (set bases)"
    using y(1) assms(3) nn by (intro sum_mono2) auto
  finally have "?P x < ?D" using py Ds by linarith
  then have "?P x / ?D < 1" using D by simp
  moreover have "0 \<le> ?P x / ?D" using nn [of x] D by simp
  ultimately show ?thesis by (simp add: spec_posterior_def)
qed

lemma calc_denominator:
  "fold (\<lambda>base acc. acc + lik base * prior base) bases (0::real) =
     (\<Sum>y\<leftarrow>bases. lik y * prior y)"
  by (simp add: bases_def)

lemma calc_update:
  "x \<in> set bases \<Longrightarrow>
   fold (\<lambda>base d. d(base := (d base * prior base) / denom)) bases lik x
     = lik x * prior x / (denom::real)"
  by (auto simp: bases_def)

lemma map_bases_cong: "(\<And>y. y \<in> set bases \<Longrightarrow> f y = g y) \<Longrightarrow> map f bases = map g bases"
  by simp

lemma calcPosteriorBasePrDist_ok:
  assumes "0 \<le> s1" and "0 \<le> s2"
  shows "\<exists>nppd'. calcPosteriorBasePrDist c1 s1 c2 s2 nppd = Inr nppd' \<and>
           (\<forall>x\<in>set bases. nppd' x = spec_posterior c1 s1 c2 s2 x)"
proof -
  let ?prior = "defineBasePrDist c1 s1 (\<lambda>_. 0)"
  let ?lik = "defineBasePrDist c2 s2 nppd"
  let ?P = "\<lambda>y. spec_call_dist c2 s2 y * spec_call_dist c1 s1 y"
  let ?D = "\<Sum>y\<leftarrow>bases. ?P y"
  have "map (\<lambda>y. ?lik y * ?prior y) bases = map ?P bases"
    by (rule map_bases_cong) (simp add: defineBasePrDist_bases)
  then have den: "fold (\<lambda>base acc. acc + ?lik base * ?prior base) bases 0 = ?D"
    by (simp only: calc_denominator)
  have D: "?D \<noteq> 0" using spec_denominator_pos [OF assms, of c2 c1] by simp
  let ?post = "fold (\<lambda>base d. d(base := (d base * ?prior base) / ?D)) bases ?lik"
  have res: "calcPosteriorBasePrDist c1 s1 c2 s2 nppd = Inr ?post"
    using D by (simp add: calcPosteriorBasePrDist_def Let_def den)
  have "\<forall>x\<in>set bases. ?post x = spec_posterior c1 s1 c2 s2 x"
    by (simp add: calc_update defineBasePrDist_bases spec_posterior_def)
  with res show ?thesis by blast
qed

lemma fold_most_probable:
  fixes p :: "char \<Rightarrow> real"
  shows "fold (\<lambda>base cb. if p base > p cb then base else cb)
           [CHR ''T'', CHR ''G'', CHR ''C''] (CHR ''A'') = spec_most_probable p"
  by (auto simp: spec_most_probable_def bases_def not_less)

lemma spec_most_probable_bases: "spec_most_probable (p :: char \<Rightarrow> real) \<in> set bases"
  unfolding fold_most_probable [symmetric] by (simp add: bases_def)

lemma spec_most_probable_cong:
  assumes "\<forall>x\<in>set bases. p x = q x"
  shows "spec_most_probable p = spec_most_probable q"
proof -
  have "filter (\<lambda>x. \<forall>y\<in>set bases. p y \<le> p x) bases = filter (\<lambda>x. \<forall>y\<in>set bases. q y \<le> q x) bases"
    using assms by (intro filter_cong) auto
  then show ?thesis by (simp add: spec_most_probable_def)
qed

lemma getMostProbableBase_ok:
  assumes "\<forall>x\<in>set bases. 0 \<le> nppd x \<and> nppd x < 1"
  shows "getMostProbableBase nppd =
           Inr (spec_most_probable nppd, spec_phred (nppd (spec_most_probable nppd)))"
proof -
  from assms spec_most_probable_bases [of nppd]
  have r: "0 \<le> nppd (spec_most_probable nppd)" "nppd (spec_most_probable nppd) < 1" by blast+
  have "getMostProbableBase nppd =
      (let cbase = spec_most_probable nppd
       in case (if nppd cbase > 0 then
                  (if 1 - nppd cbase \<le> 0 then Inl ValueError
                   else Inr (- 10 * log 10 (1 - nppd cbase)))
                else Inr 0) of
            Inl e \<Rightarrow> Inl e
          | Inr cscore \<Rightarrow> Inr (cbase, cscore + 1 / 1000000))"
    unfolding getMostProbableBase_def fold_most_probable ..
  with r show ?thesis
    by (simp add: spec_phred_def Let_def)
qed

lemma bayesian_read_ok:
  assumes "cnt < length aligned" and "cnt < length indexed"
  shows "bayesian_read aligned indexed conf cnt sc =
           Inr (if spec_usable (aligned ! cnt) then aligned ! cnt else CHR ''N'',
                if spec_usable (aligned ! cnt) then Some (conf (indexed ! cnt)) else sc)"
  using assms by (simp add: bayesian_read_def spec_usable_def py_index_nat)

lemma bayesian_both_ok:
  assumes "0 \<le> s1" and "0 \<le> s2"
  shows "\<exists>nppd'. calcPosteriorBasePrDist c1 s1 c2 s2 nppd = Inr nppd' \<and>
           getMostProbableBase nppd' =
             Inr (spec_most_probable (spec_posterior c1 s1 c2 s2),
                  spec_phred (spec_posterior c1 s1 c2 s2
                    (spec_most_probable (spec_posterior c1 s1 c2 s2))))"
proof -
  from calcPosteriorBasePrDist_ok [OF assms, of c1 c2 nppd] obtain nppd' where
    c: "calcPosteriorBasePrDist c1 s1 c2 s2 nppd = Inr nppd'"
    and p: "\<forall>x\<in>set bases. nppd' x = spec_posterior c1 s1 c2 s2 x" by blast
  have rng: "\<forall>x\<in>set bases. 0 \<le> nppd' x \<and> nppd' x < 1"
    using p spec_posterior_range [OF assms] by simp
  have mp: "spec_most_probable nppd' = spec_most_probable (spec_posterior c1 s1 c2 s2)"
    using p by (rule spec_most_probable_cong)
  have "nppd' (spec_most_probable nppd') =
      spec_posterior c1 s1 c2 s2 (spec_most_probable (spec_posterior c1 s1 c2 s2))"
    using p spec_most_probable_bases [of nppd'] by (simp add: mp)
  with getMostProbableBase_ok [OF rng] mp c show ?thesis by simp
qed

lemma bayesian_decide_ok:
  assumes "spec_usable c1 \<and> spec_usable c2 \<longrightarrow> 0 \<le> s1 \<and> 0 \<le> s2"
  shows "\<exists>nppd'. bayesian_decide
             (if spec_usable c1 then c1 else CHR ''N'') (if spec_usable c1 then Some s1 else sc1)
             (if spec_usable c2 then c2 else CHR ''N'') (if spec_usable c2 then Some s2 else sc2)
             nppd = Inr (nppd', spec_bayes_call c1 s1 c2 s2)"
proof (cases "spec_usable c1 \<and> spec_usable c2")
  case True
  with assms have "0 \<le> s1" "0 \<le> s2" by simp_all
  from bayesian_both_ok [OF this, of c1 c2 nppd] obtain nppd' where
    "calcPosteriorBasePrDist c1 s1 c2 s2 nppd = Inr nppd'"
    "getMostProbableBase nppd' =
       Inr (spec_most_probable (spec_posterior c1 s1 c2 s2),
            spec_phred (spec_posterior c1 s1 c2 s2
              (spec_most_probable (spec_posterior c1 s1 c2 s2))))"
    by blast
  with True show ?thesis
    by (simp add: bayesian_decide_def spec_bayes_call_def spec_usable_def)
next
  case False
  then show ?thesis
    by (auto simp: bayesian_decide_def spec_bayes_call_def spec_usable_def)
qed

text \<open>The pair recorded for a column: the call of the column with the threshold applied.\<close>

lemma bayesian_column_ok:
  assumes "cnt < length (seq1aligned b)" and "cnt < length (seq2aligned b)"
    and "cnt < length (seq1indexed b)" and "cnt < length (seq2indexed b)"
    and "spec_usable (seq1aligned b ! cnt) \<and> spec_usable (seq2aligned b ! cnt) \<longrightarrow>
           0 \<le> conf1 b (seq1indexed b ! cnt) \<and> 0 \<le> conf2 b (seq2indexed b ! cnt)"
  shows "\<exists>sc1' sc2' nppd'. bayesian_column b m cnt sc1 sc2 nppd =
           Inr (sc1', sc2', nppd',
                if snd (spec_bayes_call (seq1aligned b ! cnt) (conf1 b (seq1indexed b ! cnt))
                          (seq2aligned b ! cnt) (conf2 b (seq2indexed b ! cnt))) < m
                then CHR ''N''
                else fst (spec_bayes_call (seq1aligned b ! cnt) (conf1 b (seq1indexed b ! cnt))
                          (seq2aligned b ! cnt) (conf2 b (seq2indexed b ! cnt))),
                snd (spec_bayes_call (seq1aligned b ! cnt) (conf1 b (seq1indexed b ! cnt))
                          (seq2aligned b ! cnt) (conf2 b (seq2indexed b ! cnt))))"
proof -
  let ?c1 = "seq1aligned b ! cnt" and ?c2 = "seq2aligned b ! cnt"
  let ?s1 = "conf1 b (seq1indexed b ! cnt)" and ?s2 = "conf2 b (seq2indexed b ! cnt)"
  from bayesian_decide_ok [OF assms(5), of sc1 sc2 nppd] obtain nppd' where
    d: "bayesian_decide
             (if spec_usable ?c1 then ?c1 else CHR ''N'') (if spec_usable ?c1 then Some ?s1 else sc1)
             (if spec_usable ?c2 then ?c2 else CHR ''N'') (if spec_usable ?c2 then Some ?s2 else sc2)
             nppd = Inr (nppd', spec_bayes_call ?c1 ?s1 ?c2 ?s2)"
    by blast
  obtain cb cs where call: "spec_bayes_call ?c1 ?s1 ?c2 ?s2 = (cb, cs)"
    by (cases "spec_bayes_call ?c1 ?s1 ?c2 ?s2")
  show ?thesis
    using d
    by (simp add: bayesian_column_def bayesian_read_ok [OF assms(1) assms(3)]
        bayesian_read_ok [OF assms(2) assms(4)] call not_less)
qed

lemma bayesian_loop_ok:
  assumes "\<forall>cnt\<in>set cnts. cnt < length (seq1aligned b) \<and> cnt < length (seq2aligned b) \<and>
             cnt < length (seq1indexed b) \<and> cnt < length (seq2indexed b) \<and>
             (spec_usable (seq1aligned b ! cnt) \<and> spec_usable (seq2aligned b ! cnt) \<longrightarrow>
                0 \<le> conf1 b (seq1indexed b ! cnt) \<and> 0 \<le> conf2 b (seq2indexed b ! cnt))"
  shows "bayesian_loop b m cnts sc1 sc2 nppd cons cconf =
           Inr (cons @ map (\<lambda>cnt.
                  if snd (spec_bayes_call (seq1aligned b ! cnt) (conf1 b (seq1indexed b ! cnt))
                            (seq2aligned b ! cnt) (conf2 b (seq2indexed b ! cnt))) < m
                  then CHR ''N''
                  else fst (spec_bayes_call (seq1aligned b ! cnt) (conf1 b (seq1indexed b ! cnt))
                            (seq2aligned b ! cnt) (conf2 b (seq2indexed b ! cnt)))) cnts,
                cconf @ map (\<lambda>cnt.
                  snd (spec_bayes_call (seq1aligned b ! cnt) (conf1 b (seq1indexed b ! cnt))
                            (seq2aligned b ! cnt) (conf2 b (seq2indexed b ! cnt)))) cnts)"
  using assms
proof (induction cnts arbitrary: sc1 sc2 nppd cons cconf)
  case Nil
  then show ?case by simp
next
  case (Cons cnt cnts)
  then have rng: "cnt < length (seq1aligned b)" "cnt < length (seq2aligned b)"
      "cnt < length (seq1indexed b)" "cnt < length (seq2indexed b)"
      "spec_usable (seq1aligned b ! cnt) \<and> spec_usable (seq2aligned b ! cnt) \<longrightarrow>
           0 \<le> conf1 b (seq1indexed b ! cnt) \<and> 0 \<le> conf2 b (seq2indexed b ! cnt)"
    and rest: "\<forall>cnt\<in>set cnts. cnt < length (seq1aligned b) \<and> cnt < length (seq2aligned b) \<and>
             cnt < length (seq1indexed b) \<and> cnt < length (seq2indexed b) \<and>
             (spec_usable (seq1aligned b ! cnt) \<and> spec_usable (seq2aligned b ! cnt) \<longrightarrow>
                0 \<le> conf1 b (seq1indexed b ! cnt) \<and> 0 \<le> conf2 b (seq2indexed b ! cnt))"
    by simp_all
  from bayesian_column_ok [OF rng, of m sc1 sc2 nppd] obtain sc1' sc2' nppd' where
    col: "bayesian_column b m cnt sc1 sc2 nppd =
           Inr (sc1', sc2', nppd',
                if snd (spec_bayes_call (seq1aligned b ! cnt) (conf1 b (seq1indexed b ! cnt))
                          (seq2aligned b ! cnt) (conf2 b (seq2indexed b ! cnt))) < m
                then CHR ''N''
                else fst (spec_bayes_call (seq1aligned b ! cnt) (conf1 b (seq1indexed b ! cnt))
                          (seq2aligned b ! cnt) (conf2 b (seq2indexed b ! cnt))),
                snd (spec_bayes_call (seq1aligned b ! cnt) (conf1 b (seq1indexed b ! cnt))
                          (seq2aligned b ! cnt) (conf2 b (seq2indexed b ! cnt))))"
    by blast
  show ?case
    by (simp add: col Cons.IH [OF rest])
qed

text \<open>
  C1.  For two aligned sequences with index maps of the alignment's length, and Phred
  scores between 0 and 61 wherever both sequences are usable,
  \<open>makeBayesianConsensus\<close> succeeds, and at every column the recorded score is the
  score of the column's call as the specification describes it (\<open>spec_bayes_call\<close>:
  \<open>'N'\<close> with score 1 when neither sequence is usable, the one usable sequence's base
  and score verbatim, and otherwise the first most probable base of the posterior in the
  order A, T, G, C with the Phred-type score of its posterior probability plus one
  millionth), while the recorded base is \<open>'N'\<close> when that score is below the
  threshold and the call's base otherwise.  The scores are real numbers here; the upper
  bound 61 of the Phred range keeps the code's doubles away from a posterior of 1.
\<close>

theorem makeBayesianConsensus_columns:
  assumes "length (seq2aligned b) = length (seq1aligned b)"
    and "length (seq1indexed b) = length (seq1aligned b)"
    and "length (seq2indexed b) = length (seq1aligned b)"
    and "\<forall>cnt < length (seq1aligned b).
           spec_usable (seq1aligned b ! cnt) \<and> spec_usable (seq2aligned b ! cnt) \<longrightarrow>
             0 \<le> conf1 b (seq1indexed b ! cnt) \<and> conf1 b (seq1indexed b ! cnt) \<le> 61 \<and>
             0 \<le> conf2 b (seq2indexed b ! cnt) \<and> conf2 b (seq2indexed b ! cnt) \<le> 61"
  shows "\<exists>b'. makeBayesianConsensus m b = Inr b' \<and>
           length (consensus b') = length (seq1aligned b) \<and>
           length (consconf b') = length (seq1aligned b) \<and>
           (\<forall>cnt < length (seq1aligned b).
              consconf b' ! cnt =
                snd (spec_bayes_call (seq1aligned b ! cnt) (conf1 b (seq1indexed b ! cnt))
                       (seq2aligned b ! cnt) (conf2 b (seq2indexed b ! cnt))) \<and>
              consensus b' ! cnt =
                (if consconf b' ! cnt < m then CHR ''N''
                 else fst (spec_bayes_call (seq1aligned b ! cnt) (conf1 b (seq1indexed b ! cnt))
                       (seq2aligned b ! cnt) (conf2 b (seq2indexed b ! cnt)))))"
proof -
  let ?n = "length (seq1aligned b)"
  have "\<forall>cnt\<in>set [0..<?n]. cnt < length (seq1aligned b) \<and> cnt < length (seq2aligned b) \<and>
             cnt < length (seq1indexed b) \<and> cnt < length (seq2indexed b) \<and>
             (spec_usable (seq1aligned b ! cnt) \<and> spec_usable (seq2aligned b ! cnt) \<longrightarrow>
                0 \<le> conf1 b (seq1indexed b ! cnt) \<and> 0 \<le> conf2 b (seq2indexed b ! cnt))"
    using assms by simp
  from bayesian_loop_ok [OF this, of m None None "\<lambda>_. 0" "[]" "[]"]
  show ?thesis by (simp add: makeBayesianConsensus_def)
qed

theorem makeBayesianConsensus_columns_witness:
  "\<exists>b'. makeBayesianConsensus 30 pair_example = Inr b' \<and>
      length (consensus b') = 5 \<and> length (consconf b') = 5 \<and>
      consensus b' ! 0 = CHR ''A'' \<and> consconf b' ! 0 = 40 \<and>
      consensus b' ! 4 = CHR ''A'' \<and> consconf b' ! 4 = 35"
proof -
  have h: "length (seq2aligned pair_example) = length (seq1aligned pair_example)"
    "length (seq1indexed pair_example) = length (seq1aligned pair_example)"
    "length (seq2indexed pair_example) = length (seq1aligned pair_example)"
    "\<forall>cnt < length (seq1aligned pair_example).
       spec_usable (seq1aligned pair_example ! cnt) \<and> spec_usable (seq2aligned pair_example ! cnt) \<longrightarrow>
         0 \<le> conf1 pair_example (seq1indexed pair_example ! cnt) \<and>
         conf1 pair_example (seq1indexed pair_example ! cnt) \<le> 61 \<and>
         0 \<le> conf2 pair_example (seq2indexed pair_example ! cnt) \<and>
         conf2 pair_example (seq2indexed pair_example ! cnt) \<le> 61"
    by (simp_all add: pair_example_def)
  from makeBayesianConsensus_columns [OF h, of 30] obtain b' where
    r: "makeBayesianConsensus 30 pair_example = Inr b'"
    and len: "length (consensus b') = length (seq1aligned pair_example)"
      "length (consconf b') = length (seq1aligned pair_example)"
    and col: "\<forall>cnt < length (seq1aligned pair_example).
              consconf b' ! cnt =
                snd (spec_bayes_call (seq1aligned pair_example ! cnt)
                       (conf1 pair_example (seq1indexed pair_example ! cnt))
                       (seq2aligned pair_example ! cnt)
                       (conf2 pair_example (seq2indexed pair_example ! cnt))) \<and>
              consensus b' ! cnt =
                (if consconf b' ! cnt < 30 then CHR ''N''
                 else fst (spec_bayes_call (seq1aligned pair_example ! cnt)
                       (conf1 pair_example (seq1indexed pair_example ! cnt))
                       (seq2aligned pair_example ! cnt)
                       (conf2 pair_example (seq2indexed pair_example ! cnt))))"
    by blast
  have n: "length (seq1aligned pair_example) = 5" by (simp add: pair_example_def)
  have s0: "consconf b' ! 0 = 40" and s4: "consconf b' ! 4 = 35"
    using col by (simp_all add: n pair_example_def spec_bayes_call_def spec_usable_def)
  have c0: "consensus b' ! 0 = CHR ''A''"
    using col s0 by (simp add: n pair_example_def spec_bayes_call_def spec_usable_def)
  have c4: "consensus b' ! 4 = CHR ''A''"
    using col s4 by (simp add: n pair_example_def spec_bayes_call_def spec_usable_def)
  from r len s0 s4 c0 c4 show ?thesis by (simp add: n)
qed

text \<open>
  The base chosen has the highest probability of the four, and every base before it in
  the order A, T, G, C has a strictly lower one.
\<close>

lemma spec_most_probable_max:
  fixes p :: "char \<Rightarrow> real"
  shows "\<forall>y\<in>set bases. p y \<le> p (spec_most_probable p)"
  unfolding fold_most_probable [symmetric] by (auto simp: bases_def)

lemma spec_most_probable_first:
  fixes p :: "char \<Rightarrow> real"
  assumes "x \<in> set (takeWhile (\<lambda>z. z \<noteq> spec_most_probable p) bases)"
  shows "p x < p (spec_most_probable p)"
  using assms unfolding fold_most_probable [symmetric]
  by (auto simp: bases_def split: if_splits)

lemma concordant_denominator:
  assumes "b \<in> set bases"
  shows "(\<Sum>y\<leftarrow>bases. spec_call_dist b s y * spec_call_dist b s y) =
           (1 - spec_error_prob s)\<^sup>2 + (spec_error_prob s)\<^sup>2 / 3"
  using assms
  by (auto simp: bases_def spec_call_dist_def power2_eq_square)

lemma reinforce_arith:
  fixes e pm :: real
  assumes e: "0 < e" "e \<le> 1"
    and own: "(1 - e)\<^sup>2 / ((1 - e)\<^sup>2 + e\<^sup>2 / 3) \<le> pm"
    and other: "(e / 3)\<^sup>2 / ((1 - e)\<^sup>2 + e\<^sup>2 / 3) \<le> pm"
  shows "1 - pm \<le> e"
proof -
  define D where "D = (1 - e)\<^sup>2 + e\<^sup>2 / 3"
  have D: "0 < D" unfolding D_def using e by (intro add_nonneg_pos) simp_all
  have frac: "\<And>q. D - q \<le> e * D \<Longrightarrow> 1 - q / D \<le> e"
  proof -
    fix q assume "D - q \<le> e * D"
    then have "(D - q) / D \<le> e" by (simp only: pos_divide_le_eq [OF D])
    moreover have "(D - q) / D = 1 - q / D"
      using D by (simp add: diff_divide_distrib)
    ultimately show "1 - q / D \<le> e" by simp
  qed
  show ?thesis
  proof (cases "e \<le> 3 / 4")
    case True
    have "e * D - (D - (1 - e)\<^sup>2) = (e / 3) * ((3 - 4 * e) * (1 - e))"
      unfolding D_def by (simp add: power2_eq_square field_simps)
    moreover have "0 \<le> (e / 3) * ((3 - 4 * e) * (1 - e))"
      using e True by (intro mult_nonneg_nonneg) simp_all
    ultimately have "D - (1 - e)\<^sup>2 \<le> e * D" by linarith
    then have "1 - (1 - e)\<^sup>2 / D \<le> e" by (rule frac)
    then show ?thesis using own unfolding D_def by linarith
  next
    case False
    have "e * D - (D - (e / 3)\<^sup>2) = (e - 3 / 4) * (4 / 9) * (3 * (e - 5 / 6)\<^sup>2 + 11 / 12)"
      unfolding D_def by (simp add: power2_eq_square field_simps)
    moreover have "0 \<le> (e - 3 / 4) * (4 / 9) * (3 * (e - 5 / 6)\<^sup>2 + 11 / 12)"
      using False by (intro mult_nonneg_nonneg add_nonneg_nonneg) simp_all
    ultimately have "D - (e / 3)\<^sup>2 \<le> e * D" by linarith
    then have "1 - (e / 3)\<^sup>2 / D \<le> e" by (rule frac)
    then show ?thesis using other unfolding D_def by linarith
  qed
qed

lemma concordant_score:
  assumes b: "b \<in> set bases" and s: "0 \<le> s"
  shows "s < spec_phred (spec_posterior b s b s (spec_most_probable (spec_posterior b s b s)))"
proof -
  define e where "e = spec_error_prob s"
  define D where "D = (1 - e)\<^sup>2 + e\<^sup>2 / 3"
  define pm where "pm = spec_posterior b s b s (spec_most_probable (spec_posterior b s b s))"
  have e: "0 < e" "e \<le> 1" unfolding e_def using spec_error_prob_range [OF s] by simp_all
  have D: "0 < D" unfolding D_def using e by (intro add_nonneg_pos) simp_all
  have post: "\<And>x. spec_posterior b s b s x = spec_call_dist b s x * spec_call_dist b s x / D"
    unfolding D_def e_def by (simp add: spec_posterior_def concordant_denominator [OF b])
  have mx: "\<forall>y\<in>set bases. spec_posterior b s b s y \<le> pm"
    unfolding pm_def by (rule spec_most_probable_max)
  have pb: "spec_posterior b s b s b = (1 - e)\<^sup>2 / D"
    by (simp add: post spec_call_dist_def power2_eq_square e_def)
  from fourth_base [of b b b] obtain y where y: "y \<in> set bases" "y \<noteq> b" by blast
  have py: "spec_posterior b s b s y = (e / 3)\<^sup>2 / D"
    using y(2) by (simp add: post spec_call_dist_def power2_eq_square e_def)
  from mx b have "spec_posterior b s b s b \<le> pm" by blast
  then have own: "(1 - e)\<^sup>2 / ((1 - e)\<^sup>2 + e\<^sup>2 / 3) \<le> pm" by (simp only: pb D_def)
  from mx y(1) have "spec_posterior b s b s y \<le> pm" by blast
  then have other: "(e / 3)\<^sup>2 / ((1 - e)\<^sup>2 + e\<^sup>2 / 3) \<le> pm" by (simp only: py D_def)
  have le: "1 - pm \<le> e" using e own other by (rule reinforce_arith)
  have rng: "0 \<le> pm" "pm < 1"
    unfolding pm_def
    using spec_posterior_range [OF s s spec_most_probable_bases, of b b "spec_posterior b s b s"]
    by simp_all
  have "0 < (e / 3)\<^sup>2 / D" using e D by simp
  with other have pos: "0 < pm" unfolding D_def by linarith
  have "log 10 (1 - pm) \<le> log 10 e"
    using le rng by (subst log_le_cancel_iff) simp_all
  also have "log 10 e = s / - 10"
    by (simp add: e_def spec_error_prob_def)
  finally have "s \<le> - 10 * log 10 (1 - pm)" by simp
  then have "s < spec_phred pm" using pos by (simp add: spec_phred_def)
  then show ?thesis by (simp only: pm_def)
qed

text \<open>
  C8.  For a base \<open>b\<close> among A, C, G, T and a score \<open>s\<close> between 1 and 61, the
  Bayesian decision for the two concordant calls \<open>(b, s)\<close> and \<open>(b, s)\<close> succeeds
  and its confidence score is strictly greater than \<open>s\<close>.
\<close>

theorem bayesian_concordant_reinforces:
  assumes "b \<in> set bases" and "1 \<le> s" and "s \<le> 61"
  shows "\<exists>nppd' cbase cscore.
           bayesian_decide b (Some s) b (Some s) nppd = Inr (nppd', cbase, cscore) \<and>
           cbase = spec_most_probable (spec_posterior b s b s) \<and>
           s < cscore"
proof -
  have s: "0 \<le> s" using assms(2) by simp
  have u: "spec_usable b" using assms(1) by (auto simp: bases_def spec_usable_def)
  from bayesian_decide_ok [of b b s s "Some s" "Some s" nppd] s u obtain nppd' where
    "bayesian_decide b (Some s) b (Some s) nppd = Inr (nppd', spec_bayes_call b s b s)"
    by auto
  moreover have "spec_bayes_call b s b s =
      (spec_most_probable (spec_posterior b s b s),
       spec_phred (spec_posterior b s b s (spec_most_probable (spec_posterior b s b s))))"
    using u by (simp add: spec_bayes_call_def)
  ultimately show ?thesis using concordant_score [OF assms(1) s] by simp
qed

theorem bayesian_concordant_reinforces_witness:
  "\<exists>nppd' cbase cscore.
      bayesian_decide (CHR ''G'') (Some 30) (CHR ''G'') (Some 30) (\<lambda>_. 0) = Inr (nppd', cbase, cscore) \<and>
      30 < cscore"
proof -
  have h: "CHR ''G'' \<in> set bases" "(1::real) \<le> 30" "(30::real) \<le> 61"
    by (simp_all add: bases_def)
  from bayesian_concordant_reinforces [OF h, of "\<lambda>_. 0"] show ?thesis by blast
qed

end
